theory Spec2Isabelle
  imports Main "HOL-Library.Signed_Division" "HOL-Library.Product_Lexorder"
begin

section \<open>Machine arithmetic of the program\<close>

text \<open>
  The program computes with C++ \<open>int\<close> (32 bits, two's complement). Values are modelled
  as \<open>int\<close> with the wrap-around written out: \<open>wrap32\<close> maps the exact result of an
  addition or subtraction to the 32-bit value that the compiled program computes (the
  language leaves a signed overflow undefined; the program has no check against it). The
  remainder operator \<open>%\<close> truncates towards zero (\<open>smod\<close>) and raises a hardware fault
  when the divisor is zero or when the quotient is not representable; vector and pointer
  accesses outside the allocated objects are faults of the model as well. \<open>INF_val\<close> is
  the constant \<open>INF\<close> of the program, \<open>numeric_limits<int>::max()\<close>.
\<close>

datatype fault = Division_Fault | Bad_Index

definition INF_val :: int where
  "INF_val = 2147483647"

definition wrap32 :: "int \<Rightarrow> int" where
  "wrap32 x = (x + 2147483648) mod 4294967296 - 2147483648"

definition add32 :: "int \<Rightarrow> int \<Rightarrow> int" where
  "add32 a b = wrap32 (a + b)"

definition sub32 :: "int \<Rightarrow> int \<Rightarrow> int" where
  "sub32 a b = wrap32 (a - b)"

definition rem32 :: "int \<Rightarrow> int \<Rightarrow> fault + int" where
  "rem32 a b =
     (if b = 0 \<or> (a = - 2147483648 \<and> b = - 1) then Inl Division_Fault
      else Inr (a smod b))"

section \<open>The timetable program: edges and their travel time\<close>

text \<open>
  \<open>struct Edge\<close> of \<open>shortest_path_times_table.cpp\<close>. The pointer \<open>connection_node\<close>
  is the position of the head node in the graph's node vector.
\<close>

record edge =
  connection_node :: nat
  traverse_time :: int
  start_time :: int
  departure_time :: int

text \<open>
  The local variable \<open>wait_time\<close> of \<open>Edge::get_travel_time\<close>: the three branches of
  the inner \<open>if\<close>. The source evaluates the remainder twice with the same operands; the
  model evaluates it once.
\<close>

definition wait_time :: "edge \<Rightarrow> int \<Rightarrow> fault + int" where
  "wait_time e current_time =
     (if current_time < start_time e then Inr (sub32 (start_time e) current_time)
      else case rem32 (sub32 current_time (start_time e)) (departure_time e) of
             Inl f \<Rightarrow> Inl f
           | Inr r \<Rightarrow> if r = 0 then Inr 0 else Inr (sub32 (departure_time e) r))"

definition get_travel_time :: "edge \<Rightarrow> int \<Rightarrow> fault + int" where
  "get_travel_time e current_time =
     (if current_time > start_time e \<and> departure_time e = 0 then Inr INF_val
      else case wait_time e current_time of
             Inl f \<Rightarrow> Inl f
           | Inr w \<Rightarrow> Inr (add32 (add32 current_time (traverse_time e)) w))"

section \<open>The timetable program: nodes and graphs\<close>

text \<open>
  \<open>class Node\<close> and \<open>class Graph\<close>. A \<open>Node*\<close> is the position of the node in the
  vector \<open>nodes\<close> of its graph, \<open>nullptr\<close> is \<open>None\<close>. The member \<open>value\<close> of a node
  is the field \<open>node_value\<close>.
\<close>

record node =
  index :: int
  node_value :: int
  visited :: bool
  prev_node :: "nat option"
  edges :: "edge list"

record graph =
  nodes :: "node list"
  start_index :: int

definition set_value :: "node list \<Rightarrow> nat \<Rightarrow> int \<Rightarrow> node list" where
  "set_value ns p new_value = ns[p := (ns ! p)\<lparr>node_value := new_value\<rparr>]"

definition set_visited :: "node list \<Rightarrow> nat \<Rightarrow> bool \<Rightarrow> node list" where
  "set_visited ns p new_visited = ns[p := (ns ! p)\<lparr>visited := new_visited\<rparr>]"

definition set_prev_node :: "node list \<Rightarrow> nat \<Rightarrow> nat option \<Rightarrow> node list" where
  "set_prev_node ns p new_pre = ns[p := (ns ! p)\<lparr>prev_node := new_pre\<rparr>]"

definition add_edge :: "node list \<Rightarrow> nat \<Rightarrow> edge \<Rightarrow> node list" where
  "add_edge ns p new_edge = ns[p := (ns ! p)\<lparr>edges := edges (ns ! p) @ [new_edge]\<rparr>]"

text \<open>The constructor of \<open>Graph\<close>: every node unvisited, without predecessor and edges.\<close>

definition Graph :: "int \<Rightarrow> int \<Rightarrow> int \<Rightarrow> graph" where
  "Graph num_nodes init_value start =
     \<lparr>nodes = map (\<lambda>i. \<lparr>index = int i, node_value = init_value, visited = False,
                          prev_node = None, edges = []\<rparr>) [0..<nat num_nodes],
      start_index = start\<rparr>"

text \<open>\<open>nodes[index]\<close>: an index outside the vector is a fault.\<close>

definition get_node :: "graph \<Rightarrow> int \<Rightarrow> fault + nat" where
  "get_node g i = (if 0 \<le> i \<and> i < int (length (nodes g)) then Inr (nat i) else Inl Bad_Index)"

definition add_one_way_edge :: "graph \<Rightarrow> int \<Rightarrow> int \<Rightarrow> int \<Rightarrow> int \<Rightarrow> int \<Rightarrow> fault + graph" where
  "add_one_way_edge g node1 node2 start departure traverse =
     (case get_node g node1 of
        Inl f \<Rightarrow> Inl f
      | Inr primary_node \<Rightarrow>
          (case get_node g node2 of
             Inl f \<Rightarrow> Inl f
           | Inr secundary_node \<Rightarrow>
               Inr (g\<lparr>nodes := add_edge (nodes g) primary_node
                     \<lparr>connection_node = secundary_node, traverse_time = traverse,
                      start_time = start, departure_time = departure\<rparr>\<rparr>)))"

definition graph_reset :: "graph \<Rightarrow> int \<Rightarrow> int \<Rightarrow> graph" where
  "graph_reset g new_start_index init_value =
     \<lparr>nodes = map (\<lambda>n. n\<lparr>prev_node := None, node_value := init_value, visited := False\<rparr>) (nodes g),
      start_index = new_start_index\<rparr>"

section \<open>The timetable program: the search\<close>

text \<open>
  The state of \<open>dijkstra_timetable\<close> while it runs: the nodes of the graph, the set
  \<open>prio_queue\<close> (a list standing for the finite set of its pairs) and, as an observation
  of the run, the calls of \<open>set_value\<close> and of \<open>set_visited(true)\<close> in program order;
  \<open>Mark_Visited p v\<close> records the value \<open>v\<close> the node holds when it is marked.
\<close>

datatype event = Set_Value nat int | Mark_Visited nat int

record search_state =
  s_nodes :: "node list"
  prio_queue :: "(int \<times> nat) list"
  events :: "event list"

text \<open>
  \<open>*prio_queue.begin()\<close>: the least pair, pairs of a cost and a node pointer being
  ordered by cost first and by the pointers (the addresses \<open>addr\<close> of the nodes) second.
\<close>

definition pq_begin :: "(nat \<Rightarrow> nat) \<Rightarrow> (int \<times> nat) list \<Rightarrow> int \<times> nat" where
  "pq_begin addr q = arg_min_list (\<lambda>(c, p). (c, addr p)) q"

text \<open>
  The body of the loop over the edges of the current node. A step of the search returns
  the next state, or the fault on which the program stops together with the state it has
  reached then.
\<close>

type_synonym stopped = "fault \<times> search_state"

definition relax_edge :: "nat \<Rightarrow> edge \<Rightarrow> search_state \<Rightarrow> stopped + search_state" where
  "relax_edge curr_node e st =
     (let neighbour_node = connection_node e in
      if \<not> neighbour_node < length (s_nodes st) then Inl (Bad_Index, st)
      else if visited (s_nodes st ! neighbour_node) then Inr st
      else
        let current_time = node_value (s_nodes st ! curr_node) in
        case get_travel_time e current_time of
          Inl f \<Rightarrow> Inl (f, st)
        | Inr upd_time \<Rightarrow>
            let neighbour_value = node_value (s_nodes st ! neighbour_node) in
            if upd_time < neighbour_value then
              Inr (st\<lparr>s_nodes := set_prev_node (set_value (s_nodes st) neighbour_node upd_time)
                                  neighbour_node (Some curr_node),
                     prio_queue := List.insert (upd_time, neighbour_node) (prio_queue st),
                     events := events st @ [Set_Value neighbour_node upd_time]\<rparr>)
            else Inr st)"

fun relax_edges :: "nat \<Rightarrow> edge list \<Rightarrow> search_state \<Rightarrow> stopped + search_state" where
  "relax_edges curr_node [] st = Inr st"
| "relax_edges curr_node (e # es) st =
     (case relax_edge curr_node e st of
        Inl f \<Rightarrow> Inl f
      | Inr st' \<Rightarrow> relax_edges curr_node es st')"

text \<open>The body of the \<open>while\<close> loop, entered with a non-empty \<open>prio_queue\<close>.\<close>

definition loop_body :: "(nat \<Rightarrow> nat) \<Rightarrow> search_state \<Rightarrow> stopped + search_state" where
  "loop_body addr st =
     (let curr_cost_node = pq_begin addr (prio_queue st);
          st1 = st\<lparr>prio_queue := removeAll curr_cost_node (prio_queue st)\<rparr>;
          curr_node = snd curr_cost_node
      in if \<not> curr_node < length (s_nodes st1) then Inl (Bad_Index, st1)
         else if visited (s_nodes st1 ! curr_node) then Inr st1
         else relax_edges curr_node (edges (s_nodes st1 ! curr_node))
                (st1\<lparr>s_nodes := set_visited (s_nodes st1) curr_node True,
                     events := events st1 @
                       [Mark_Visited curr_node (node_value (s_nodes st1 ! curr_node))]\<rparr>))"

text \<open>
  The loop ends: an iteration marks an unvisited node, or it only takes a pair from the
  queue.
\<close>

definition unvisited_count :: "node list \<Rightarrow> nat" where
  "unvisited_count ns = card {p. p < length ns \<and> \<not> visited (ns ! p)}"

lemma relax_edge_visited:
  assumes "relax_edge u e st = Inr st'"
  shows "length (s_nodes st') = length (s_nodes st)"
    and "visited (s_nodes st' ! p) = visited (s_nodes st ! p)"
proof -
  consider "st' = st"
    | t where "connection_node e < length (s_nodes st)"
        "st' = st\<lparr>s_nodes := set_prev_node (set_value (s_nodes st) (connection_node e) t)
                                  (connection_node e) (Some u),
                   prio_queue := List.insert (t, connection_node e) (prio_queue st),
                   events := events st @ [Set_Value (connection_node e) t]\<rparr>"
    using assms unfolding relax_edge_def Let_def
    by (auto split: if_splits sum.splits)
  then show "length (s_nodes st') = length (s_nodes st)"
    by cases (simp_all add: set_prev_node_def set_value_def)
next
  consider "st' = st"
    | t where "connection_node e < length (s_nodes st)"
        "st' = st\<lparr>s_nodes := set_prev_node (set_value (s_nodes st) (connection_node e) t)
                                  (connection_node e) (Some u),
                   prio_queue := List.insert (t, connection_node e) (prio_queue st),
                   events := events st @ [Set_Value (connection_node e) t]\<rparr>"
    using assms unfolding relax_edge_def Let_def
    by (auto split: if_splits sum.splits)
  then show "visited (s_nodes st' ! p) = visited (s_nodes st ! p)"
  proof cases
    case 1
    then show ?thesis by simp
  next
    case 2
    then show ?thesis
      by (cases "p = connection_node e") (simp_all add: set_prev_node_def set_value_def)
  qed
qed

lemma relax_edges_visited:
  assumes "relax_edges u es st = Inr st'"
  shows "length (s_nodes st') = length (s_nodes st)
     \<and> (\<forall>p. visited (s_nodes st' ! p) = visited (s_nodes st ! p))"
  using assms
proof (induction es arbitrary: st)
  case Nil
  then show ?case by simp
next
  case (Cons e es)
  from Cons.prems obtain st1 where 1: "relax_edge u e st = Inr st1"
    and 2: "relax_edges u es st1 = Inr st'"
    by (auto split: sum.splits)
  from Cons.IH [OF 2] relax_edge_visited [OF 1] show ?case by simp
qed

lemma unvisited_count_mark:
  assumes "p < length ns" "\<not> visited (ns ! p)"
  shows "unvisited_count (set_visited ns p True) < unvisited_count ns"
proof -
  let ?A = "{q. q < length ns \<and> \<not> visited (ns ! q)}"
  have eq: "{q. q < length (set_visited ns p True) \<and> \<not> visited (set_visited ns p True ! q)} = ?A - {p}"
    using assms(1) by (auto simp: set_visited_def nth_list_update)
  have "finite ?A" by simp
  moreover have "p \<in> ?A" using assms by simp
  ultimately have "card (?A - {p}) < card ?A" by (rule card_Diff1_less)
  then show ?thesis
    unfolding unvisited_count_def eq .
qed

lemma pq_begin_in: "q \<noteq> [] \<Longrightarrow> pq_begin addr q \<in> set q"
  by (simp add: pq_begin_def arg_min_list_in)

lemma loop_body_decreases:
  assumes "prio_queue st \<noteq> []" "loop_body addr st = Inr st'"
  shows "(st', st) \<in> measures [\<lambda>s. unvisited_count (s_nodes s), \<lambda>s. length (prio_queue s)]"
proof -
  let ?c = "pq_begin addr (prio_queue st)"
  let ?st1 = "st\<lparr>prio_queue := removeAll ?c (prio_queue st)\<rparr>"
  have inq: "?c \<in> set (prio_queue st)" using assms(1) by (rule pq_begin_in)
  have r: "snd ?c < length (s_nodes st)"
    using assms(2) by (auto simp: loop_body_def Let_def split: if_splits)
  show ?thesis
  proof (cases "visited (s_nodes st ! snd ?c)")
    case True
    with assms(2) r have "st' = ?st1" by (simp add: loop_body_def Let_def)
    with inq show ?thesis by (simp add: length_removeAll_less)
  next
    case False
    with assms(2) r have "relax_edges (snd ?c) (edges (s_nodes st ! snd ?c))
        (?st1\<lparr>s_nodes := set_visited (s_nodes st) (snd ?c) True,
               events := events st @ [Mark_Visited (snd ?c) (node_value (s_nodes st ! snd ?c))]\<rparr>) = Inr st'"
      by (simp add: loop_body_def Let_def)
    from relax_edges_visited [OF this]
    have "unvisited_count (s_nodes st') = unvisited_count (set_visited (s_nodes st) (snd ?c) True)"
      by (simp add: unvisited_count_def)
    with unvisited_count_mark [OF r False] show ?thesis by simp
  qed
qed

function dijkstra_loop :: "(nat \<Rightarrow> nat) \<Rightarrow> search_state \<Rightarrow> stopped + search_state" where
  "dijkstra_loop addr st =
     (if prio_queue st = [] then Inr st
      else case loop_body addr st of
             Inl f \<Rightarrow> Inl f
           | Inr st' \<Rightarrow> dijkstra_loop addr st')"
  by pat_completeness auto

termination
proof (relation "inv_image (measures [\<lambda>s. unvisited_count (s_nodes s), \<lambda>s. length (prio_queue s)]) snd")
  show "wf (inv_image (measures [\<lambda>s. unvisited_count (s_nodes s), \<lambda>s. length (prio_queue s)]) snd)"
    by simp
next
  fix addr :: "nat \<Rightarrow> nat" and st st' :: search_state
  assume "prio_queue st \<noteq> []" "loop_body addr st = Inr st'"
  then have "(st', st) \<in> measures [\<lambda>s. unvisited_count (s_nodes s), \<lambda>s. length (prio_queue s)]"
    by (rule loop_body_decreases)
  then show "((addr, st'), addr, st) \<in>
      inv_image (measures [\<lambda>s. unvisited_count (s_nodes s), \<lambda>s. length (prio_queue s)]) snd"
    by simp
qed

declare dijkstra_loop.simps [simp del]

text \<open>
  \<open>dijkstra_timetable\<close>: the reset, the start node and the loop. \<open>dijkstra_search\<close> is the
  run with its last search state, \<open>dijkstra_timetable\<close> the graph it leaves behind when it
  returns. \<open>run_events\<close> are the calls observed in a run, whether it returns or stops on a
  fault.
\<close>

definition dijkstra_search :: "(nat \<Rightarrow> nat) \<Rightarrow> graph \<Rightarrow> int \<Rightarrow> stopped + search_state" where
  "dijkstra_search addr gr start_node_index =
     (let g = graph_reset gr start_node_index INF_val in
      case get_node g start_node_index of
        Inl f \<Rightarrow>
          Inl (f, \<lparr>s_nodes = nodes g, prio_queue = [],
                   events = map (\<lambda>p. Set_Value p INF_val) [0..<length (nodes g)]\<rparr>)
      | Inr start_node \<Rightarrow>
          dijkstra_loop addr
            \<lparr>s_nodes = set_value (nodes g) start_node 0,
             prio_queue = [(0, start_node)],
             events = map (\<lambda>p. Set_Value p INF_val) [0..<length (nodes g)] @
                      [Set_Value start_node 0]\<rparr>)"

definition dijkstra_timetable :: "(nat \<Rightarrow> nat) \<Rightarrow> graph \<Rightarrow> int \<Rightarrow> fault + graph" where
  "dijkstra_timetable addr gr start_node_index =
     (case dijkstra_search addr gr start_node_index of
        Inl f \<Rightarrow> Inl (fst f)
      | Inr st \<Rightarrow> Inr \<lparr>nodes = s_nodes st, start_index = start_node_index\<rparr>)"

definition last_state :: "stopped + search_state \<Rightarrow> search_state" where
  "last_state r = (case r of Inl f \<Rightarrow> snd f | Inr st \<Rightarrow> st)"

definition run_events :: "(nat \<Rightarrow> nat) \<Rightarrow> graph \<Rightarrow> int \<Rightarrow> event list" where
  "run_events addr gr start_node_index =
     events (last_state (dijkstra_search addr gr start_node_index))"

section \<open>The timetable program: path reconstruction\<close>

text \<open>
  The loop of \<open>Graph::get_path\<close> that follows the \<open>prev_node\<close> pointers. It runs for
  ever on a cycle of pointers: \<open>None\<close> is the run that never returns.
\<close>

partial_function (option) follow_prev ::
    "node list \<Rightarrow> nat option \<Rightarrow> nat list \<Rightarrow> (fault + nat list) option" where
  "follow_prev ns current_prev return_path =
     (case current_prev of
        None \<Rightarrow> Some (Inr return_path)
      | Some p \<Rightarrow>
          if p < length ns then follow_prev ns (prev_node (ns ! p)) (return_path @ [p])
          else Some (Inl Bad_Index))"

text \<open>
  \<open>Graph::get_path\<close>. The comparison of the \<open>int\<close> index with the unsigned
  \<open>size()\<close> converts the index to 64 bits without sign.
\<close>

definition get_path :: "graph \<Rightarrow> int \<Rightarrow> (fault + nat list) option" where
  "get_path g end_node_index =
     (if end_node_index mod 18446744073709551616 \<ge> int (length (nodes g)) then Some (Inr [])
      else
        case get_node g end_node_index of
          Inl f \<Rightarrow> Some (Inl f)
        | Inr end_node \<Rightarrow>
            (case get_node g (start_index g) of
               Inl f \<Rightarrow> Some (Inl f)
             | Inr start_node \<Rightarrow>
                 map_option (map_sum id rev)
                   (follow_prev (nodes g) (prev_node (nodes g ! end_node))
                      (if visited (nodes g ! end_node) then [end_node] else []))))"

declare follow_prev.simps [code]

section \<open>The timetable program: one test case\<close>

text \<open>
  The body of the loop of \<open>main\<close> for one test case, on the numbers read from the input:
  the graph is built from the edge records, the search runs, and every query is answered
  by one line of output. \<open>operator<<\<close> on an \<open>int\<close> writes its decimal digits.
\<close>

fun add_edges :: "graph \<Rightarrow> (int \<times> int \<times> int \<times> int \<times> int) list \<Rightarrow> fault + graph" where
  "add_edges g [] = Inr g"
| "add_edges g ((node1, node2, start, departure, traverse) # records) =
     (case add_one_way_edge g node1 node2 start departure traverse of
        Inl f \<Rightarrow> Inl f
      | Inr g' \<Rightarrow> add_edges g' records)"

function show_digits :: "int \<Rightarrow> string" where
  "show_digits n =
     (if n < 10 then [''0123456789'' ! nat n]
      else show_digits (n div 10) @ [''0123456789'' ! nat (n mod 10)])"
  by pat_completeness auto

termination
  by (relation "measure nat") auto

declare show_digits.simps [simp del]

definition show_int :: "int \<Rightarrow> string" where
  "show_int i = (if i < 0 then CHR ''-'' # show_digits (- i) else show_digits i)"

fun answer_queries :: "graph \<Rightarrow> int list \<Rightarrow> fault + string list" where
  "answer_queries g [] = Inr []"
| "answer_queries g (query # queries) =
     (case get_node g query of
        Inl f \<Rightarrow> Inl f
      | Inr q_node \<Rightarrow>
          let v = node_value (nodes g ! q_node);
              line = (if v = INF_val then ''Impossible'' else show_int v)
          in case answer_queries g queries of
               Inl f \<Rightarrow> Inl f
             | Inr lines \<Rightarrow> Inr (line # lines))"

definition test_case ::
    "(nat \<Rightarrow> nat) \<Rightarrow> int \<Rightarrow> int \<Rightarrow> (int \<times> int \<times> int \<times> int \<times> int) list \<Rightarrow> int list
       \<Rightarrow> fault + string list" where
  "test_case addr num_nodes start_node_index records queries =
     (case add_edges (Graph num_nodes INF_val start_node_index) records of
        Inl f \<Rightarrow> Inl f
      | Inr g \<Rightarrow>
          (case dijkstra_timetable addr g start_node_index of
             Inl f \<Rightarrow> Inl f
           | Inr g' \<Rightarrow> answer_queries g' queries))"

section \<open>The constant-weight program\<close>

text \<open>
  \<open>struct Edge\<close>, \<open>class Node\<close>, \<open>class Graph\<close> and \<open>dijkstra\<close> of the constant-weight
  program (the second program of \<open>lab1/interval_covers.cpp\<close>). Its names carry the
  prefix \<open>w\<close> where they are also names of the timetable program. The constructor of
  \<open>Node\<close> leaves \<open>no_good\<close> uninitialised; the search does not read it.
\<close>

record w_edge =
  w_connection_node :: nat
  edge_cost :: int

record w_node =
  w_index :: int
  w_value :: int
  w_visited :: bool
  w_prev_node :: "nat option"
  w_edges :: "w_edge list"
  no_good :: bool

record w_graph =
  w_nodes :: "w_node list"
  w_start_index :: int

definition w_get_node :: "w_graph \<Rightarrow> int \<Rightarrow> fault + nat" where
  "w_get_node g i =
     (if 0 \<le> i \<and> i < int (length (w_nodes g)) then Inr (nat i) else Inl Bad_Index)"

definition w_graph_reset :: "w_graph \<Rightarrow> int \<Rightarrow> int \<Rightarrow> w_graph" where
  "w_graph_reset g new_start_index init_value =
     \<lparr>w_nodes = map (\<lambda>n. n\<lparr>w_prev_node := None, w_value := init_value, w_visited := False\<rparr>)
                   (w_nodes g),
      w_start_index = new_start_index\<rparr>"

record w_search_state =
  ws_nodes :: "w_node list"
  ws_prio_queue :: "(int \<times> nat) list"

definition w_relax_edge :: "nat \<Rightarrow> w_edge \<Rightarrow> w_search_state \<Rightarrow> fault + w_search_state" where
  "w_relax_edge curr_node e st =
     (let neighbour_node = w_connection_node e;
          travel_cost = edge_cost e
      in if \<not> neighbour_node < length (ws_nodes st) then Inl Bad_Index
         else if w_visited (ws_nodes st ! neighbour_node) then Inr st
         else
           let neighbour_value = w_value (ws_nodes st ! neighbour_node);
               upd_cost = add32 (w_value (ws_nodes st ! curr_node)) travel_cost
           in if upd_cost < neighbour_value then
                Inr (st\<lparr>ws_nodes := (ws_nodes st)
                         [neighbour_node := (ws_nodes st ! neighbour_node)
                            \<lparr>w_value := upd_cost, w_prev_node := Some curr_node\<rparr>],
                       ws_prio_queue := List.insert (upd_cost, neighbour_node) (ws_prio_queue st)\<rparr>)
              else Inr st)"

fun w_relax_edges :: "nat \<Rightarrow> w_edge list \<Rightarrow> w_search_state \<Rightarrow> fault + w_search_state" where
  "w_relax_edges curr_node [] st = Inr st"
| "w_relax_edges curr_node (e # es) st =
     (case w_relax_edge curr_node e st of
        Inl f \<Rightarrow> Inl f
      | Inr st' \<Rightarrow> w_relax_edges curr_node es st')"

definition w_loop_body :: "(nat \<Rightarrow> nat) \<Rightarrow> w_search_state \<Rightarrow> fault + w_search_state" where
  "w_loop_body addr st =
     (let curr_cost_node = pq_begin addr (ws_prio_queue st);
          st1 = st\<lparr>ws_prio_queue := removeAll curr_cost_node (ws_prio_queue st)\<rparr>;
          curr_node = snd curr_cost_node
      in if \<not> curr_node < length (ws_nodes st1) then Inl Bad_Index
         else if w_visited (ws_nodes st1 ! curr_node) then Inr st1
         else w_relax_edges curr_node (w_edges (ws_nodes st1 ! curr_node))
                (st1\<lparr>ws_nodes := (ws_nodes st1)
                       [curr_node := (ws_nodes st1 ! curr_node)\<lparr>w_visited := True\<rparr>]\<rparr>))"

definition w_unvisited_count :: "w_node list \<Rightarrow> nat" where
  "w_unvisited_count ns = card {p. p < length ns \<and> \<not> w_visited (ns ! p)}"

lemma w_relax_edge_visited:
  assumes "w_relax_edge u e st = Inr st'"
  shows "length (ws_nodes st') = length (ws_nodes st)
     \<and> (\<forall>p. w_visited (ws_nodes st' ! p) = w_visited (ws_nodes st ! p))"
proof -
  consider "st' = st"
    | t where "w_connection_node e < length (ws_nodes st)"
        "st' = st\<lparr>ws_nodes := (ws_nodes st)
                   [w_connection_node e := (ws_nodes st ! w_connection_node e)
                      \<lparr>w_value := t, w_prev_node := Some u\<rparr>],
                 ws_prio_queue := List.insert (t, w_connection_node e) (ws_prio_queue st)\<rparr>"
    using assms unfolding w_relax_edge_def Let_def
    by (auto split: if_splits)
  then show ?thesis
  proof cases
    case 1
    then show ?thesis by simp
  next
    case 2
    have "w_visited (ws_nodes st' ! p) = w_visited (ws_nodes st ! p)" for p
      using 2 by (cases "p = w_connection_node e") simp_all
    with 2 show ?thesis by simp
  qed
qed

lemma w_relax_edges_visited:
  assumes "w_relax_edges u es st = Inr st'"
  shows "length (ws_nodes st') = length (ws_nodes st)
     \<and> (\<forall>p. w_visited (ws_nodes st' ! p) = w_visited (ws_nodes st ! p))"
  using assms
proof (induction es arbitrary: st)
  case Nil
  then show ?case by simp
next
  case (Cons e es)
  from Cons.prems obtain st1 where 1: "w_relax_edge u e st = Inr st1"
    and 2: "w_relax_edges u es st1 = Inr st'"
    by (auto split: sum.splits)
  from Cons.IH [OF 2] w_relax_edge_visited [OF 1] show ?case by simp
qed

lemma w_loop_body_decreases:
  assumes "ws_prio_queue st \<noteq> []" "w_loop_body addr st = Inr st'"
  shows "(st', st) \<in> measures [\<lambda>s. w_unvisited_count (ws_nodes s), \<lambda>s. length (ws_prio_queue s)]"
proof -
  let ?c = "pq_begin addr (ws_prio_queue st)"
  let ?u = "snd ?c"
  let ?st1 = "st\<lparr>ws_prio_queue := removeAll ?c (ws_prio_queue st)\<rparr>"
  let ?ns = "(ws_nodes st)[?u := (ws_nodes st ! ?u)\<lparr>w_visited := True\<rparr>]"
  have inq: "?c \<in> set (ws_prio_queue st)" using assms(1) by (rule pq_begin_in)
  have r: "?u < length (ws_nodes st)"
    using assms(2) by (auto simp: w_loop_body_def Let_def split: if_splits)
  show ?thesis
  proof (cases "w_visited (ws_nodes st ! ?u)")
    case True
    with assms(2) r have "st' = ?st1" by (simp add: w_loop_body_def Let_def)
    with inq show ?thesis by (simp add: length_removeAll_less)
  next
    case False
    with assms(2) r have "w_relax_edges ?u (w_edges (ws_nodes st ! ?u))
        (?st1\<lparr>ws_nodes := ?ns\<rparr>) = Inr st'"
      by (simp add: w_loop_body_def Let_def)
    from w_relax_edges_visited [OF this]
    have eq: "w_unvisited_count (ws_nodes st') = w_unvisited_count ?ns"
      by (simp add: w_unvisited_count_def)
    let ?A = "{q. q < length (ws_nodes st) \<and> \<not> w_visited (ws_nodes st ! q)}"
    have "{q. q < length ?ns \<and> \<not> w_visited (?ns ! q)} = ?A - {?u}"
      using r by (auto simp: nth_list_update)
    moreover have "card (?A - {?u}) < card ?A"
      using r False by (intro card_Diff1_less) simp_all
    ultimately have "w_unvisited_count ?ns < w_unvisited_count (ws_nodes st)"
      by (simp add: w_unvisited_count_def)
    with eq show ?thesis by simp
  qed
qed

function w_dijkstra_loop :: "(nat \<Rightarrow> nat) \<Rightarrow> w_search_state \<Rightarrow> fault + w_search_state" where
  "w_dijkstra_loop addr st =
     (if ws_prio_queue st = [] then Inr st
      else case w_loop_body addr st of
             Inl f \<Rightarrow> Inl f
           | Inr st' \<Rightarrow> w_dijkstra_loop addr st')"
  by pat_completeness auto

termination
proof (relation "inv_image (measures [\<lambda>s. w_unvisited_count (ws_nodes s), \<lambda>s. length (ws_prio_queue s)]) snd")
  show "wf (inv_image (measures [\<lambda>s. w_unvisited_count (ws_nodes s), \<lambda>s. length (ws_prio_queue s)]) snd)"
    by simp
next
  fix addr :: "nat \<Rightarrow> nat" and st st' :: w_search_state
  assume "ws_prio_queue st \<noteq> []" "w_loop_body addr st = Inr st'"
  then have "(st', st) \<in> measures [\<lambda>s. w_unvisited_count (ws_nodes s), \<lambda>s. length (ws_prio_queue s)]"
    by (rule w_loop_body_decreases)
  then show "((addr, st'), addr, st) \<in>
      inv_image (measures [\<lambda>s. w_unvisited_count (ws_nodes s), \<lambda>s. length (ws_prio_queue s)]) snd"
    by simp
qed

declare w_dijkstra_loop.simps [simp del]

definition dijkstra :: "(nat \<Rightarrow> nat) \<Rightarrow> w_graph \<Rightarrow> int \<Rightarrow> fault + w_graph" where
  "dijkstra addr gr start_node_index =
     (let g = w_graph_reset gr start_node_index INF_val in
      case w_get_node g start_node_index of
        Inl f \<Rightarrow> Inl f
      | Inr start_node \<Rightarrow>
          (case w_dijkstra_loop addr
                  \<lparr>ws_nodes = (w_nodes g)[start_node := (w_nodes g ! start_node)\<lparr>w_value := 0\<rparr>],
                   ws_prio_queue = [(0, start_node)]\<rparr> of
             Inl f \<Rightarrow> Inl f
           | Inr st \<Rightarrow> Inr \<lparr>w_nodes = ws_nodes st, w_start_index = start_node_index\<rparr>))"

section \<open>The specification: schedule function, paths and weighted edges\<close>

text \<open>
  The reference function of the specification (section 4.1, steps 1 to 4), over the
  mathematical integers. \<open>None\<close> is "unreachable via this edge".
\<close>

definition schedule_function :: "int \<Rightarrow> int \<Rightarrow> int \<Rightarrow> int \<Rightarrow> int option" where
  "schedule_function departure_start period duration current_time =
     (if period = 0 \<and> current_time > departure_start then None
      else
        let wait =
          (if current_time \<le> departure_start then departure_start - current_time
           else
             let phase = (current_time - departure_start) mod period
             in if phase = 0 then 0 else period - phase)
        in Some (current_time + duration + wait))"

abbreviation edge_schedule :: "edge \<Rightarrow> int \<Rightarrow> int option" where
  "edge_schedule e \<equiv> schedule_function (start_time e) (departure_time e) (traverse_time e)"

text \<open>
  The schedules of a graph are bounded by \<open>M\<close>: every edge has a non-negative departure
  start, period and duration whose sum is at most \<open>M\<close>, and the number of nodes times
  \<open>M\<close> is below \<open>INT_MAX\<close>. Within such a bound no sum computed by the search leaves
  the 32-bit range.
\<close>

definition bounded_schedule :: "int \<Rightarrow> node list \<Rightarrow> bool" where
  "bounded_schedule M ns \<longleftrightarrow>
     0 \<le> M \<and> int (length ns) * M < INF_val \<and>
     (\<forall>n \<in> set ns. \<forall>e \<in> set (edges n).
        0 \<le> start_time e \<and> 0 \<le> departure_time e \<and> 0 \<le> traverse_time e \<and>
        start_time e + departure_time e + traverse_time e \<le> M)"

text \<open>
  A path is the list of its edges. \<open>path_arrival ns u path t\<close> applies the schedule
  function of the specification along the path, leaving the node \<open>u\<close> at time \<open>t\<close>: it is
  the node reached and the time of arrival there, or \<open>None\<close> when the list is not a path of
  the graph or some edge on it cannot be taken any more.
\<close>

fun path_arrival :: "node list \<Rightarrow> nat \<Rightarrow> edge list \<Rightarrow> int \<Rightarrow> (nat \<times> int) option" where
  "path_arrival ns u [] t = Some (u, t)"
| "path_arrival ns u (e # es) t =
     (if u < length ns \<and> e \<in> set (edges (ns ! u)) then
        (case edge_schedule e t of
           None \<Rightarrow> None
         | Some a \<Rightarrow> path_arrival ns (connection_node e) es a)
      else None)"

text \<open>
  A weighted edge as an edge of the timetable program (specification, section 4.1):
  departures from time 0 on, every unit of time, with the weight as duration.
\<close>

definition timetable_edge :: "w_edge \<Rightarrow> edge" where
  "timetable_edge c =
     \<lparr>connection_node = w_connection_node c, traverse_time = edge_cost c,
      start_time = 0, departure_time = 1\<rparr>"

definition timetable_node :: "w_node \<Rightarrow> node" where
  "timetable_node n =
     \<lparr>index = w_index n, node_value = w_value n, visited = w_visited n,
      prev_node = w_prev_node n, edges = map timetable_edge (w_edges n)\<rparr>"

definition timetable_graph :: "w_graph \<Rightarrow> graph" where
  "timetable_graph g = \<lparr>nodes = map timetable_node (w_nodes g), start_index = w_start_index g\<rparr>"

section \<open>Example graphs\<close>

text \<open>
  The scenario of the specification (section 8): source 0, a one-shot edge from 0 to 1
  leaving at 5 with duration 2, a periodic edge from 1 to 2 first leaving at 10, every 3,
  with duration 1; and a fourth node behind a one-shot edge from 1 that has left at 5.
\<close>

definition scenario_graph :: graph where
  "scenario_graph =
     \<lparr>nodes =
        [\<lparr>index = 0, node_value = INF_val, visited = False, prev_node = None,
          edges = [\<lparr>connection_node = 1, traverse_time = 2, start_time = 5, departure_time = 0\<rparr>]\<rparr>,
         \<lparr>index = 1, node_value = INF_val, visited = False, prev_node = None,
          edges = [\<lparr>connection_node = 2, traverse_time = 1, start_time = 10, departure_time = 3\<rparr>,
                   \<lparr>connection_node = 3, traverse_time = 1, start_time = 5, departure_time = 0\<rparr>]\<rparr>,
         \<lparr>index = 2, node_value = INF_val, visited = False, prev_node = None, edges = []\<rparr>,
         \<lparr>index = 3, node_value = INF_val, visited = False, prev_node = None, edges = []\<rparr>],
      start_index = 0\<rparr>"

definition scenario_final :: search_state where
  "scenario_final =
     \<lparr>s_nodes =
        [\<lparr>index = 0, node_value = 0, visited = True, prev_node = None,
          edges = [\<lparr>connection_node = 1, traverse_time = 2, start_time = 5, departure_time = 0\<rparr>]\<rparr>,
         \<lparr>index = 1, node_value = 7, visited = True, prev_node = Some 0,
          edges = [\<lparr>connection_node = 2, traverse_time = 1, start_time = 10, departure_time = 3\<rparr>,
                   \<lparr>connection_node = 3, traverse_time = 1, start_time = 5, departure_time = 0\<rparr>]\<rparr>,
         \<lparr>index = 2, node_value = 11, visited = True, prev_node = Some 1, edges = []\<rparr>,
         \<lparr>index = 3, node_value = INF_val, visited = False, prev_node = None, edges = []\<rparr>],
      prio_queue = [],
      events =
        [Set_Value 0 INF_val, Set_Value 1 INF_val, Set_Value 2 INF_val, Set_Value 3 INF_val,
         Set_Value 0 0, Mark_Visited 0 0, Set_Value 1 7, Mark_Visited 1 7,
         Set_Value 2 11, Mark_Visited 2 11]\<rparr>"

definition scenario_result :: graph where
  "scenario_result = \<lparr>nodes = s_nodes scenario_final, start_index = 0\<rparr>"

text \<open>
  Three nodes in a row. The first edge leaves once at time 5 and takes 2; the second edge
  leaves once at time 7, the time at which the search reaches node 1.
\<close>

definition one_shot_graph :: graph where
  "one_shot_graph =
     \<lparr>nodes =
        [\<lparr>index = 0, node_value = INF_val, visited = False, prev_node = None,
          edges = [\<lparr>connection_node = 1, traverse_time = 2, start_time = 5, departure_time = 0\<rparr>]\<rparr>,
         \<lparr>index = 1, node_value = INF_val, visited = False, prev_node = None,
          edges = [\<lparr>connection_node = 2, traverse_time = 1, start_time = 7, departure_time = 0\<rparr>]\<rparr>,
         \<lparr>index = 2, node_value = INF_val, visited = False, prev_node = None, edges = []\<rparr>],
      start_index = 0\<rparr>"

text \<open>
  Two nodes and a one-shot edge that leaves at 2147483647 with duration 1: the arrival
  time does not fit 32 bits.
\<close>

definition overflow_graph :: graph where
  "overflow_graph =
     \<lparr>nodes =
        [\<lparr>index = 0, node_value = INF_val, visited = False, prev_node = None,
          edges = [\<lparr>connection_node = 1, traverse_time = 1, start_time = 2147483647,
                    departure_time = 0\<rparr>]\<rparr>,
         \<lparr>index = 1, node_value = INF_val, visited = False, prev_node = None, edges = []\<rparr>],
      start_index = 0\<rparr>"

text \<open>
  Three nodes with the weights 4 (from 0 to 1), 10 (from 0 to 2) and 3 (from 1 to 2); and a
  chain of four nodes whose weights add up beyond 32 bits.
\<close>

definition weighted_example :: w_graph where
  "weighted_example =
     \<lparr>w_nodes =
        [\<lparr>w_index = 0, w_value = INF_val, w_visited = False, w_prev_node = None,
          w_edges = [\<lparr>w_connection_node = 1, edge_cost = 4\<rparr>,
                     \<lparr>w_connection_node = 2, edge_cost = 10\<rparr>], no_good = False\<rparr>,
         \<lparr>w_index = 1, w_value = INF_val, w_visited = False, w_prev_node = None,
          w_edges = [\<lparr>w_connection_node = 2, edge_cost = 3\<rparr>], no_good = False\<rparr>,
         \<lparr>w_index = 2, w_value = INF_val, w_visited = False, w_prev_node = None,
          w_edges = [], no_good = False\<rparr>],
      w_start_index = 0\<rparr>"

definition weighted_overflow :: w_graph where
  "weighted_overflow =
     \<lparr>w_nodes =
        [\<lparr>w_index = 0, w_value = INF_val, w_visited = False, w_prev_node = None,
          w_edges = [\<lparr>w_connection_node = 1, edge_cost = 1073741824\<rparr>], no_good = False\<rparr>,
         \<lparr>w_index = 1, w_value = INF_val, w_visited = False, w_prev_node = None,
          w_edges = [\<lparr>w_connection_node = 2, edge_cost = 1073741829\<rparr>], no_good = False\<rparr>,
         \<lparr>w_index = 2, w_value = INF_val, w_visited = False, w_prev_node = None,
          w_edges = [\<lparr>w_connection_node = 3, edge_cost = 1\<rparr>], no_good = False\<rparr>,
         \<lparr>w_index = 3, w_value = INF_val, w_visited = False, w_prev_node = None,
          w_edges = [], no_good = False\<rparr>],
      w_start_index = 0\<rparr>"

section \<open>Invariants of the search\<close>

text \<open>
  The state after the three updates of a successful relaxation, and the state after the
  current node has been taken from the queue and marked visited.
\<close>

definition improved :: "search_state \<Rightarrow> nat \<Rightarrow> nat \<Rightarrow> int \<Rightarrow> search_state" where
  "improved st u v t =
     st\<lparr>s_nodes := set_prev_node (set_value (s_nodes st) v t) v (Some u),
        prio_queue := List.insert (t, v) (prio_queue st),
        events := events st @ [Set_Value v t]\<rparr>"

definition marked :: "search_state \<Rightarrow> int \<times> nat \<Rightarrow> search_state" where
  "marked st c =
     st\<lparr>prio_queue := removeAll c (prio_queue st),
        s_nodes := set_visited (s_nodes st) (snd c) True,
        events := events st @ [Mark_Visited (snd c) (node_value (s_nodes st ! snd c))]\<rparr>"

text \<open>
  The state in which the loop of \<open>dijkstra_timetable\<close> is entered.
\<close>

definition start_state :: "graph \<Rightarrow> nat \<Rightarrow> search_state" where
  "start_state gr p =
     \<lparr>s_nodes = set_value (nodes (graph_reset gr (int p) INF_val)) p 0,
      prio_queue = [(0, p)],
      events = map (\<lambda>q. Set_Value q INF_val) [0..<length (nodes gr)] @ [Set_Value p 0]\<rparr>"

text \<open>
  The queue and the values: a pair of the queue names a node of the graph, its key is
  below the sentinel and not below the value of the node; an unvisited node whose value is
  not the sentinel has the pair of its value in the queue; no value exceeds the sentinel,
  and the value of a visited node is below it.
\<close>

definition inv_queue :: "search_state \<Rightarrow> bool" where
  "inv_queue st \<longleftrightarrow>
     (\<forall>k p. (k, p) \<in> set (prio_queue st) \<longrightarrow>
        p < length (s_nodes st) \<and> node_value (s_nodes st ! p) \<le> k \<and> k < INF_val) \<and>
     (\<forall>p. p < length (s_nodes st) \<longrightarrow> \<not> visited (s_nodes st ! p) \<longrightarrow>
        node_value (s_nodes st ! p) \<noteq> INF_val \<longrightarrow>
        (node_value (s_nodes st ! p), p) \<in> set (prio_queue st)) \<and>
     (\<forall>p. p < length (s_nodes st) \<longrightarrow> node_value (s_nodes st ! p) \<le> INF_val) \<and>
     (\<forall>p. p < length (s_nodes st) \<longrightarrow> visited (s_nodes st ! p) \<longrightarrow>
        node_value (s_nodes st ! p) < INF_val)"

text \<open>
  The observed calls: a node recorded as marked is visited and still holds the value
  recorded, and no \<open>set_value\<close> follows the marking of the node it targets.
\<close>

definition inv_events :: "search_state \<Rightarrow> bool" where
  "inv_events st \<longleftrightarrow>
     (\<forall>p v. Mark_Visited p v \<in> set (events st) \<longrightarrow>
        p < length (s_nodes st) \<and> visited (s_nodes st ! p) \<and> node_value (s_nodes st ! p) = v) \<and>
     (\<forall>i j p v w. i < j \<longrightarrow> j < length (events st) \<longrightarrow>
        events st ! i = Mark_Visited p v \<longrightarrow> events st ! j \<noteq> Set_Value p w)"

text \<open>
  \<open>prev_chain ns p path\<close>: following \<open>prev_node\<close> from \<open>p\<close> ends at a node without
  predecessor, and \<open>path\<close> lists the nodes met, that node first and \<open>p\<close> last.
\<close>

inductive prev_chain :: "node list \<Rightarrow> nat \<Rightarrow> nat list \<Rightarrow> bool" where
  root: "p < length ns \<Longrightarrow> prev_node (ns ! p) = None \<Longrightarrow> prev_chain ns p [p]"
| link: "p < length ns \<Longrightarrow> prev_node (ns ! p) = Some q \<Longrightarrow> prev_chain ns q path \<Longrightarrow>
         prev_chain ns p (path @ [p])"

text \<open>
  The predecessors, for the source \<open>s\<close>: the source is the first node visited and has no
  predecessor; every other node without predecessor holds the sentinel; a predecessor is
  a visited node with an edge to the node whose travel time, from the value of the
  predecessor, is the value of the node; and from every visited node the predecessors
  form a chain of visited nodes.
\<close>

definition inv_prev :: "nat \<Rightarrow> search_state \<Rightarrow> bool" where
  "inv_prev s st \<longleftrightarrow>
     s < length (s_nodes st) \<and>
     ((\<exists>p < length (s_nodes st). visited (s_nodes st ! p)) \<longrightarrow> visited (s_nodes st ! s)) \<and>
     (\<forall>k p. (k, p) \<in> set (prio_queue st) \<longrightarrow> p = s \<or> visited (s_nodes st ! s)) \<and>
     prev_node (s_nodes st ! s) = None \<and>
     (\<forall>p < length (s_nodes st). prev_node (s_nodes st ! p) = None \<longrightarrow>
        p = s \<or> node_value (s_nodes st ! p) = INF_val) \<and>
     (\<forall>p < length (s_nodes st). \<forall>q. prev_node (s_nodes st ! p) = Some q \<longrightarrow>
        q < length (s_nodes st) \<and> visited (s_nodes st ! q) \<and>
        node_value (s_nodes st ! p) < INF_val \<and>
        (\<exists>e \<in> set (edges (s_nodes st ! q)). connection_node e = p \<and>
           get_travel_time e (node_value (s_nodes st ! q)) = Inr (node_value (s_nodes st ! p)))) \<and>
     (\<forall>p < length (s_nodes st). visited (s_nodes st ! p) \<longrightarrow>
        (\<exists>path. prev_chain (s_nodes st) p path \<and>
           (\<forall>x \<in> set path. x < length (s_nodes st) \<and> visited (s_nodes st ! x))))"

definition inv_tree :: "nat \<Rightarrow> search_state \<Rightarrow> bool" where
  "inv_tree s st \<longleftrightarrow> inv_queue st \<and> inv_prev s st \<and> inv_events st"

text \<open>
  The source is visited, or its pair is still in the queue.
\<close>

definition inv_source :: "nat \<Rightarrow> search_state \<Rightarrow> bool" where
  "inv_source s st \<longleftrightarrow>
     s < length (s_nodes st) \<and> (visited (s_nodes st ! s) \<or> (0, s) \<in> set (prio_queue st))"

text \<open>
  The search changes neither the number of nodes nor their edges.
\<close>

definition same_graph :: "node list \<Rightarrow> search_state \<Rightarrow> bool" where
  "same_graph ns st \<longleftrightarrow>
     length (s_nodes st) = length ns \<and> (\<forall>p < length ns. edges (s_nodes st ! p) = edges (ns ! p))"

text \<open>
  With \<open>c\<close> nodes visited, every value other than the sentinel is at most \<open>c * M\<close>, and
  a visited node leaves room for one more edge below that.
\<close>

definition visited_count :: "node list \<Rightarrow> nat" where
  "visited_count ns = card {p. p < length ns \<and> visited (ns ! p)}"

definition inv_bound :: "int \<Rightarrow> search_state \<Rightarrow> bool" where
  "inv_bound M st \<longleftrightarrow>
     (\<forall>p < length (s_nodes st). 0 \<le> node_value (s_nodes st ! p)) \<and>
     (\<forall>p < length (s_nodes st). node_value (s_nodes st ! p) \<noteq> INF_val \<longrightarrow>
        node_value (s_nodes st ! p) \<le> int (visited_count (s_nodes st)) * M) \<and>
     (\<forall>p < length (s_nodes st). visited (s_nodes st ! p) \<longrightarrow>
        node_value (s_nodes st ! p) + M \<le> int (visited_count (s_nodes st)) * M)"

text \<open>
  Earliest arrival, for the source \<open>s\<close> of the graph \<open>ns\<close>. \<open>relaxed st w es\<close>: no edge of
  \<open>es\<close>, taken from \<open>w\<close> at the value of \<open>w\<close>, arrives before the value of its head.
  \<open>inv_core\<close>: the source has value 0; the value of a visited node is at most every key
  of the queue; a value below the sentinel is the arrival time of some path from the
  source; the values recorded at the markings do not decrease. \<open>inv_opt\<close> holds between
  two iterations of the loop, \<open>inv_relaxing\<close> while the edges \<open>ds\<close> of the current node
  \<open>u\<close> have been handled.
\<close>

definition relaxed :: "search_state \<Rightarrow> nat \<Rightarrow> edge list \<Rightarrow> bool" where
  "relaxed st w es \<longleftrightarrow>
     (\<forall>e \<in> set es. \<forall>a. edge_schedule e (node_value (s_nodes st ! w)) = Some a \<longrightarrow>
        connection_node e < length (s_nodes st) \<and>
        node_value (s_nodes st ! connection_node e) \<le> a)"

definition inv_core :: "node list \<Rightarrow> nat \<Rightarrow> search_state \<Rightarrow> bool" where
  "inv_core ns s st \<longleftrightarrow>
     node_value (s_nodes st ! s) = 0 \<and>
     (\<forall>w < length (s_nodes st). visited (s_nodes st ! w) \<longrightarrow>
        (\<forall>k p. (k, p) \<in> set (prio_queue st) \<longrightarrow> node_value (s_nodes st ! w) \<le> k)) \<and>
     (\<forall>p < length (s_nodes st). node_value (s_nodes st ! p) < INF_val \<longrightarrow>
        (\<exists>path. path_arrival ns s path 0 = Some (p, node_value (s_nodes st ! p)))) \<and>
     (\<forall>i j p v q w. i < j \<longrightarrow> j < length (events st) \<longrightarrow>
        events st ! i = Mark_Visited p v \<longrightarrow> events st ! j = Mark_Visited q w \<longrightarrow> v \<le> w)"

definition inv_opt :: "node list \<Rightarrow> nat \<Rightarrow> search_state \<Rightarrow> bool" where
  "inv_opt ns s st \<longleftrightarrow>
     inv_core ns s st \<and>
     (\<forall>w < length (s_nodes st). visited (s_nodes st ! w) \<longrightarrow> relaxed st w (edges (ns ! w)))"

definition inv_relaxing :: "node list \<Rightarrow> nat \<Rightarrow> nat \<Rightarrow> edge list \<Rightarrow> search_state \<Rightarrow> bool" where
  "inv_relaxing ns s u ds st \<longleftrightarrow>
     inv_core ns s st \<and>
     (\<forall>w < length (s_nodes st). visited (s_nodes st ! w) \<longrightarrow> w \<noteq> u \<longrightarrow>
        relaxed st w (edges (ns ! w))) \<and>
     relaxed st u ds \<and>
     (\<forall>w < length (s_nodes st). visited (s_nodes st ! w) \<longrightarrow>
        node_value (s_nodes st ! w) \<le> node_value (s_nodes st ! u))"

definition inv_all :: "int \<Rightarrow> node list \<Rightarrow> nat \<Rightarrow> search_state \<Rightarrow> bool" where
  "inv_all M ns s st \<longleftrightarrow>
     same_graph ns st \<and> inv_queue st \<and> inv_events st \<and> inv_bound M st \<and> inv_opt ns s st"

text \<open>
  While the edges of the node \<open>u\<close> just marked are relaxed: the graph, the queue, the bound
  and the edges \<open>ds\<close> of \<open>u\<close> relaxed so far.
\<close>

definition inv_visit :: "int \<Rightarrow> node list \<Rightarrow> nat \<Rightarrow> nat \<Rightarrow> edge list \<Rightarrow> search_state \<Rightarrow> bool" where
  "inv_visit M ns s u ds x \<longleftrightarrow>
     same_graph ns x \<and> inv_queue x \<and> inv_bound M x \<and>
     u < length (s_nodes x) \<and> visited (s_nodes x ! u) \<and> inv_relaxing ns s u ds x"

text \<open>
  The states of the two searches agree: the same queue, and node by node the same
  value, mark, predecessor and edges.
\<close>

definition same_fault :: "stopped \<Rightarrow> fault \<Rightarrow> bool" where
  "same_fault a f \<longleftrightarrow> fst a = f"

definition same_search :: "search_state \<Rightarrow> w_search_state \<Rightarrow> bool" where
  "same_search st wst \<longleftrightarrow>
     s_nodes st = map timetable_node (ws_nodes wst) \<and> prio_queue st = ws_prio_queue wst"

section \<open>Properties of the travel time\<close>

lemma wrap32_id: "- 2147483648 \<le> x \<Longrightarrow> x \<le> 2147483647 \<Longrightarrow> wrap32 x = x"
  by (simp add: wrap32_def)

lemma smod_nonneg_pos: "0 \<le> a \<Longrightarrow> 0 < b \<Longrightarrow> a smod b = a mod (b::int)"
  by (cases "a = 0") (simp_all add: smod_int_alt_def)

lemma rem32_nonneg_pos: "0 \<le> a \<Longrightarrow> 0 < b \<Longrightarrow> rem32 a b = Inr (a mod b)"
  by (simp add: rem32_def smod_nonneg_pos)

lemma edge_schedule_SomeE:
  assumes "edge_schedule e t = Some a"
  obtains w where "a = t + traverse_time e + w"
    and "t \<le> start_time e \<Longrightarrow> w = start_time e - t"
    and "start_time e < t \<Longrightarrow> departure_time e \<noteq> 0"
    and "start_time e < t \<Longrightarrow> (t - start_time e) mod departure_time e = 0 \<Longrightarrow> w = 0"
    and "start_time e < t \<Longrightarrow> (t - start_time e) mod departure_time e \<noteq> 0 \<Longrightarrow>
           w = departure_time e - (t - start_time e) mod departure_time e"
  using assms by (auto simp: schedule_function_def Let_def split: if_splits)

lemma wait_time_exact:
  assumes "0 \<le> t" "0 \<le> start_time e" "0 \<le> departure_time e"
    and "\<not> (departure_time e = 0 \<and> start_time e \<le> t)"
    and "w = (if t < start_time e then start_time e - t
              else if (t - start_time e) mod departure_time e = 0 then 0
              else departure_time e - (t - start_time e) mod departure_time e)"
    and "t \<le> INF_val" "w \<le> INF_val"
  shows "wait_time e t = Inr w" and "0 \<le> w"
proof -
  show "wait_time e t = Inr w"
  proof (cases "t < start_time e")
    case True
    with assms show ?thesis
      by (simp add: wait_time_def sub32_def wrap32_id INF_val_def)
  next
    case False
    with assms have p: "0 < departure_time e" by auto
    from False assms have d: "sub32 t (start_time e) = t - start_time e"
      by (simp add: sub32_def wrap32_id INF_val_def)
    from False have n: "0 \<le> t - start_time e" by simp
    have r: "rem32 (t - start_time e) (departure_time e) =
        Inr ((t - start_time e) mod departure_time e)"
      using n p by (rule rem32_nonneg_pos)
    have lt: "(t - start_time e) mod departure_time e < departure_time e"
      using p by simp
    have ge: "0 \<le> (t - start_time e) mod departure_time e"
      using p by simp
    show ?thesis
    proof (cases "(t - start_time e) mod departure_time e = 0")
      case True
      with False assms(5) show ?thesis by (simp add: wait_time_def d r)
    next
      case nz: False
      with False assms(5) have w: "w = departure_time e - (t - start_time e) mod departure_time e"
        by simp
      with lt ge assms(7) have "sub32 (departure_time e) ((t - start_time e) mod departure_time e) = w"
        by (simp add: sub32_def wrap32_id INF_val_def)
      with False nz show ?thesis by (simp add: wait_time_def d r)
    qed
  qed
  show "0 \<le> w"
  proof (cases "t < start_time e")
    case True
    with assms(5) show ?thesis by simp
  next
    case False
    with assms have p: "0 < departure_time e" by auto
    have "(t - start_time e) mod departure_time e < departure_time e"
      using p by simp
    with False assms(5) show ?thesis by (simp split: if_splits)
  qed
qed

lemma edge_schedule_eq:
  assumes "\<not> (departure_time e = 0 \<and> start_time e < t)"
  shows "edge_schedule e t = Some (t + traverse_time e +
           (if t \<le> start_time e then start_time e - t
            else if (t - start_time e) mod departure_time e = 0 then 0
            else departure_time e - (t - start_time e) mod departure_time e))"
  using assms by (simp add: schedule_function_def Let_def)

lemma edge_schedule_None:
  "edge_schedule e t = None \<longleftrightarrow> departure_time e = 0 \<and> start_time e < t"
  by (simp add: schedule_function_def Let_def)

lemma get_travel_time_exact:
  assumes "0 \<le> t" "0 \<le> start_time e" "0 \<le> departure_time e" "0 \<le> traverse_time e"
    and "\<not> (departure_time e = 0 \<and> t = start_time e)"
    and "edge_schedule e t = Some a" "a \<le> INF_val"
  shows "get_travel_time e t = Inr a" and "t \<le> a"
proof -
  from assms(6) have ns: "\<not> (departure_time e = 0 \<and> start_time e < t)"
    using edge_schedule_None [of e t] by auto
  define w where "w = (if t < start_time e then start_time e - t
              else if (t - start_time e) mod departure_time e = 0 then 0
              else departure_time e - (t - start_time e) mod departure_time e)"
  have a: "a = t + traverse_time e + w"
    using edge_schedule_eq [OF ns] assms(6) by (auto simp: w_def)
  have nz: "\<not> (departure_time e = 0 \<and> start_time e \<le> t)"
    using ns assms(5) by auto
  have w0: "0 \<le> w"
  proof (cases "t < start_time e")
    case True
    then show ?thesis by (simp add: w_def)
  next
    case False
    with nz assms(3) have "0 < departure_time e" by auto
    then have "(t - start_time e) mod departure_time e < departure_time e" by simp
    with False show ?thesis by (simp add: w_def)
  qed
  have wle: "w \<le> INF_val" and tle: "t \<le> INF_val"
    using a w0 assms(1,4,7) by simp_all
  have wt: "wait_time e t = Inr w"
    using assms(1-3) nz w_def tle wle by (rule wait_time_exact)
  have "add32 (add32 t (traverse_time e)) w = a"
    using a w0 assms(1,4,7) by (simp add: add32_def wrap32_id INF_val_def)
  with wt ns show "get_travel_time e t = Inr a"
    by (auto simp: get_travel_time_def)
  show "t \<le> a" using a w0 assms(4) by simp
qed

text \<open>
  C2, as stated, fails where the exact sum leaves the 32-bit range: the reference value
  at \<open>current_time = 0\<close> for a one-shot edge leaving at 2147483647 with duration 1 is
  2147483648, the program's sum wraps around.
\<close>

theorem get_travel_time_differs_from_reference:
  "get_travel_time \<lparr>connection_node = 1, traverse_time = 1, start_time = 2147483647, departure_time = 0\<rparr> 0
     = Inr (- 2147483648)
   \<and> schedule_function 2147483647 0 1 0 = Some 2147483648"
  by (simp add: get_travel_time_def wait_time_def sub32_def add32_def wrap32_def
      schedule_function_def)

text \<open>
  C2 (amended). For a non-negative current time and an edge with non-negative fields,
  away from the one input class on which the code divides by zero (a one-shot edge asked
  exactly at its departure) and whenever the reference result fits the 32-bit range,
  \<open>Edge::get_travel_time\<close> returns the value of the reference function of the
  specification, the sentinel \<open>INF_val\<close> standing for "unreachable via this edge".
\<close>

theorem get_travel_time_refines_schedule_function:
  assumes "0 \<le> t" "0 \<le> start_time e" "0 \<le> departure_time e" "0 \<le> traverse_time e"
    and "\<not> (departure_time e = 0 \<and> t = start_time e)"
    and "\<forall>a. edge_schedule e t = Some a \<longrightarrow> a \<le> INF_val"
  shows "get_travel_time e t = Inr (case edge_schedule e t of None \<Rightarrow> INF_val | Some a \<Rightarrow> a)"
proof (cases "edge_schedule e t")
  case None
  moreover from None have "departure_time e = 0 \<and> start_time e < t"
    by (simp add: edge_schedule_None)
  ultimately show ?thesis
    by (simp add: get_travel_time_def)
next
  case (Some a)
  with assms(6) have "a \<le> INF_val" by simp
  with assms(1-5) Some have "get_travel_time e t = Inr a"
    by (rule get_travel_time_exact(1))
  with Some show ?thesis by simp
qed

theorem get_travel_time_refines_schedule_function_witness:
  "get_travel_time \<lparr>connection_node = 2, traverse_time = 1, start_time = 10, departure_time = 3\<rparr> 12
     = Inr 14"
  using get_travel_time_refines_schedule_function
    [of 12 "\<lparr>connection_node = 2, traverse_time = 1, start_time = 10, departure_time = 3\<rparr>"]
  by (simp add: schedule_function_def INF_val_def)

text \<open>
  C4, as stated, fails in 32-bit arithmetic: the sum of a large current time and a large
  duration wraps around to a negative value, which is neither the sentinel nor at least
  the current time.
\<close>

theorem get_travel_time_before_current_time:
  "get_travel_time \<lparr>connection_node = 1, traverse_time = 2000000000, start_time = 0, departure_time = 1\<rparr>
     2000000000 = Inr (- 294967296)"
  by (simp add: get_travel_time_def wait_time_def rem32_def sub32_def add32_def wrap32_def
      smod_int_alt_def)

lemma wait_time_Inr_nonneg:
  assumes "0 \<le> t" "t \<le> INF_val" "0 \<le> start_time e" "start_time e \<le> INF_val"
    and "0 \<le> departure_time e" "departure_time e \<le> INF_val"
    and "wait_time e t = Inr w"
  shows "0 \<le> w"
proof -
  have nz: "\<not> (departure_time e = 0 \<and> start_time e \<le> t)"
    using assms(7) by (auto simp: wait_time_def rem32_def)
  define w' where "w' = (if t < start_time e then start_time e - t
              else if (t - start_time e) mod departure_time e = 0 then 0
              else departure_time e - (t - start_time e) mod departure_time e)"
  have "w' \<le> INF_val"
  proof (cases "t < start_time e")
    case True
    with assms(1,4) show ?thesis by (simp add: w'_def)
  next
    case False
    with nz assms(5) have p: "0 < departure_time e" by auto
    then have "0 \<le> (t - start_time e) mod departure_time e" by simp
    with False assms(6) show ?thesis by (simp add: w'_def INF_val_def)
  qed
  with assms(1,3,5) nz w'_def assms(2) have "wait_time e t = Inr w'" "0 \<le> w'"
    by (rule wait_time_exact)+
  with assms(7) show ?thesis by simp
qed

text \<open>
  C4 (amended). For a current time and edge fields in the range 0 to \<open>INT_MAX\<close>,
  whenever \<open>Edge::get_travel_time\<close> returns a value and the exact sum of current time,
  duration and wait does not exceed \<open>INT_MAX\<close>, the value returned is the sentinel or
  at least the current time.
\<close>

theorem get_travel_time_not_before_current_time:
  assumes "0 \<le> t" "t \<le> INF_val" "0 \<le> start_time e" "start_time e \<le> INF_val"
    and "0 \<le> departure_time e" "departure_time e \<le> INF_val" "0 \<le> traverse_time e"
    and "get_travel_time e t = Inr r"
    and "\<forall>w. wait_time e t = Inr w \<longrightarrow> t + traverse_time e + w \<le> INF_val"
  shows "r = INF_val \<or> t \<le> r"
proof (cases "start_time e < t \<and> departure_time e = 0")
  case True
  with assms(8) show ?thesis by (simp add: get_travel_time_def)
next
  case False
  with assms(8) obtain w where w: "wait_time e t = Inr w"
    and r: "r = add32 (add32 t (traverse_time e)) w"
    by (auto simp: get_travel_time_def split: sum.splits)
  from assms(1-6) w have w0: "0 \<le> w" by (rule wait_time_Inr_nonneg)
  from assms(9) w have "t + traverse_time e + w \<le> INF_val" by simp
  with w0 assms(1,7) have "r = t + traverse_time e + w"
    by (simp add: r add32_def wrap32_id INF_val_def)
  with w0 assms(7) show ?thesis by simp
qed

theorem get_travel_time_not_before_current_time_witness:
  "get_travel_time \<lparr>connection_node = 1, traverse_time = 2, start_time = 5, departure_time = 0\<rparr> 3
     = Inr 7 \<and> (7 = INF_val \<or> (3::int) \<le> 7)"
proof -
  let ?e = "\<lparr>connection_node = 1, traverse_time = 2, start_time = 5, departure_time = 0\<rparr>"
  have g: "get_travel_time ?e 3 = Inr 7"
    by (simp add: get_travel_time_def wait_time_def sub32_def add32_def wrap32_def)
  have h: "\<forall>w. wait_time ?e 3 = Inr w \<longrightarrow> 3 + traverse_time ?e + w \<le> INF_val"
    by (simp add: wait_time_def sub32_def wrap32_def INF_val_def)
  from get_travel_time_not_before_current_time [of 3 ?e 7] g h show ?thesis
    by (simp add: INF_val_def)
qed

section \<open>Basic facts about the node setters\<close>

lemma length_set_value [simp]: "length (set_value ns p v) = length ns"
  by (simp add: set_value_def)

lemma length_set_visited [simp]: "length (set_visited ns p b) = length ns"
  by (simp add: set_visited_def)

lemma length_set_prev_node [simp]: "length (set_prev_node ns p q) = length ns"
  by (simp add: set_prev_node_def)

lemma nth_update_field:
  assumes "\<And>n. f (g n) = f n"
  shows "f (ns[p := g (ns ! p)] ! q) = f (ns ! q)"
proof (cases "p < length ns")
  case True
  then show ?thesis
    by (cases "q = p") (simp_all add: assms)
next
  case False
  then show ?thesis by (simp add: list_update_beyond)
qed

lemma set_value_fields [simp]:
  "visited (set_value ns p v ! q) = visited (ns ! q)"
  "prev_node (set_value ns p v ! q) = prev_node (ns ! q)"
  "edges (set_value ns p v ! q) = edges (ns ! q)"
  "index (set_value ns p v ! q) = index (ns ! q)"
  by (simp_all add: set_value_def nth_update_field)

lemma set_value_value [simp]:
  "p < length ns \<Longrightarrow> node_value (set_value ns p v ! q) = (if q = p then v else node_value (ns ! q))"
  by (simp add: set_value_def)

lemma set_visited_fields [simp]:
  "node_value (set_visited ns p b ! q) = node_value (ns ! q)"
  "prev_node (set_visited ns p b ! q) = prev_node (ns ! q)"
  "edges (set_visited ns p b ! q) = edges (ns ! q)"
  "index (set_visited ns p b ! q) = index (ns ! q)"
  by (simp_all add: set_visited_def nth_update_field)

lemma set_visited_visited [simp]:
  "p < length ns \<Longrightarrow> visited (set_visited ns p b ! q) = (if q = p then b else visited (ns ! q))"
  by (simp add: set_visited_def)

lemma set_prev_node_fields [simp]:
  "node_value (set_prev_node ns p x ! q) = node_value (ns ! q)"
  "visited (set_prev_node ns p x ! q) = visited (ns ! q)"
  "edges (set_prev_node ns p x ! q) = edges (ns ! q)"
  "index (set_prev_node ns p x ! q) = index (ns ! q)"
  by (simp_all add: set_prev_node_def nth_update_field)

lemma set_prev_node_prev [simp]:
  "p < length ns \<Longrightarrow> prev_node (set_prev_node ns p x ! q) = (if q = p then x else prev_node (ns ! q))"
  by (simp add: set_prev_node_def)

section \<open>The steps of the search, case by case\<close>

lemma improved_simps [simp]:
  "length (s_nodes (improved st u v t)) = length (s_nodes st)"
  "visited (s_nodes (improved st u v t) ! q) = visited (s_nodes st ! q)"
  "edges (s_nodes (improved st u v t) ! q) = edges (s_nodes st ! q)"
  "index (s_nodes (improved st u v t) ! q) = index (s_nodes st ! q)"
  "set (prio_queue (improved st u v t)) = insert (t, v) (set (prio_queue st))"
  "events (improved st u v t) = events st @ [Set_Value v t]"
  by (simp_all add: improved_def)

lemma improved_value [simp]:
  "v < length (s_nodes st) \<Longrightarrow>
   node_value (s_nodes (improved st u v t) ! q) = (if q = v then t else node_value (s_nodes st ! q))"
  by (simp add: improved_def)

lemma improved_prev [simp]:
  "v < length (s_nodes st) \<Longrightarrow>
   prev_node (s_nodes (improved st u v t) ! q) = (if q = v then Some u else prev_node (s_nodes st ! q))"
  by (simp add: improved_def)

lemma relax_edge_cases:
  assumes "relax_edge u e st = Inr st'"
  obtains (skip) "connection_node e < length (s_nodes st)"
      "visited (s_nodes st ! connection_node e)" "st' = st"
  | (keep) t where "connection_node e < length (s_nodes st)"
      "\<not> visited (s_nodes st ! connection_node e)"
      "get_travel_time e (node_value (s_nodes st ! u)) = Inr t"
      "\<not> t < node_value (s_nodes st ! connection_node e)" "st' = st"
  | (improve) t where "connection_node e < length (s_nodes st)"
      "\<not> visited (s_nodes st ! connection_node e)"
      "get_travel_time e (node_value (s_nodes st ! u)) = Inr t"
      "t < node_value (s_nodes st ! connection_node e)"
      "st' = improved st u (connection_node e) t"
  using assms unfolding relax_edge_def Let_def improved_def
  by (auto split: if_splits sum.splits)

lemma relax_edges_invariant:
  assumes "relax_edges u es st = Inr st'" "Q ds st"
    and "\<And>ds e s s'. Q ds s \<Longrightarrow> e \<in> set es \<Longrightarrow> relax_edge u e s = Inr s' \<Longrightarrow> Q (ds @ [e]) s'"
  shows "Q (ds @ es) st'"
  using assms
proof (induction es arbitrary: ds st)
  case Nil
  then show ?case by simp
next
  case (Cons e es)
  from Cons.prems(1) obtain st1 where 1: "relax_edge u e st = Inr st1"
    and 2: "relax_edges u es st1 = Inr st'"
    by (auto split: sum.splits)
  have "Q (ds @ [e]) st1"
    using Cons.prems(2) _ 1 by (rule Cons.prems(3)) simp
  with 2 have "Q ((ds @ [e]) @ es) st'"
  proof (rule Cons.IH)
    fix ds' e' s s'
    assume "Q ds' s" "e' \<in> set es" "relax_edge u e' s = Inr s'"
    then show "Q (ds' @ [e']) s'"
      using Cons.prems(3) [of ds' s e' s'] by simp
  qed
  then show ?case by simp
qed

lemma relax_edges_preserves:
  assumes "relax_edges u es st = Inr st'" "P st"
    and "\<And>e s s'. P s \<Longrightarrow> e \<in> set es \<Longrightarrow> relax_edge u e s = Inr s' \<Longrightarrow> P s'"
  shows "P st'"
  using relax_edges_invariant [where Q = "\<lambda>_. P" and ds = "[]", OF assms(1,2)] assms(3)
  by blast

lemma marked_simps [simp]:
  "length (s_nodes (marked st c)) = length (s_nodes st)"
  "node_value (s_nodes (marked st c) ! q) = node_value (s_nodes st ! q)"
  "prev_node (s_nodes (marked st c) ! q) = prev_node (s_nodes st ! q)"
  "edges (s_nodes (marked st c) ! q) = edges (s_nodes st ! q)"
  "index (s_nodes (marked st c) ! q) = index (s_nodes st ! q)"
  "set (prio_queue (marked st c)) = set (prio_queue st) - {c}"
  "events (marked st c) = events st @ [Mark_Visited (snd c) (node_value (s_nodes st ! snd c))]"
  by (simp_all add: marked_def)

lemma marked_visited [simp]:
  "snd c < length (s_nodes st) \<Longrightarrow>
   visited (s_nodes (marked st c) ! q) = (q = snd c \<or> visited (s_nodes st ! q))"
  by (simp add: marked_def)

lemma pq_begin_least:
  assumes "(k, p) \<in> set q"
  shows "fst (pq_begin addr q) \<le> k"
proof -
  let ?f = "\<lambda>(c, p). (c, addr p)"
  from assms have ne: "q \<noteq> []" by auto
  have "?f (pq_begin addr q) = Min (?f ` set q)"
    unfolding pq_begin_def using ne by (rule f_arg_min_list_f)
  also have "\<dots> \<le> ?f (k, p)"
    using assms by (intro Min_le) auto
  finally show ?thesis
    by (auto simp: case_prod_beta less_eq_prod_def)
qed

lemma loop_body_cases:
  assumes "loop_body addr st = Inr st'" "prio_queue st \<noteq> []"
  obtains (stale) c where "c \<in> set (prio_queue st)" "\<forall>(k, p) \<in> set (prio_queue st). fst c \<le> k"
      "snd c < length (s_nodes st)" "visited (s_nodes st ! snd c)"
      "st' = st\<lparr>prio_queue := removeAll c (prio_queue st)\<rparr>"
  | (visit) c where "c \<in> set (prio_queue st)" "\<forall>(k, p) \<in> set (prio_queue st). fst c \<le> k"
      "snd c < length (s_nodes st)" "\<not> visited (s_nodes st ! snd c)"
      "relax_edges (snd c) (edges (s_nodes st ! snd c)) (marked st c) = Inr st'"
proof -
  let ?c = "pq_begin addr (prio_queue st)"
  have 1: "?c \<in> set (prio_queue st)" using assms(2) by (rule pq_begin_in)
  have 2: "\<forall>(k, p) \<in> set (prio_queue st). fst ?c \<le> k"
    by (auto intro: pq_begin_least)
  have 3: "snd ?c < length (s_nodes st)"
    using assms(1) by (auto simp: loop_body_def Let_def split: if_splits)
  show thesis
  proof (cases "visited (s_nodes st ! snd ?c)")
    case True
    with assms(1) 3 have "st' = st\<lparr>prio_queue := removeAll ?c (prio_queue st)\<rparr>"
      by (simp add: loop_body_def Let_def)
    with 1 2 3 True show thesis by (rule stale)
  next
    case False
    with assms(1) 3 have "relax_edges (snd ?c) (edges (s_nodes st ! snd ?c)) (marked st ?c) = Inr st'"
      by (simp add: loop_body_def Let_def marked_def)
    with 1 2 3 False show thesis by (rule visit)
  qed
qed

lemma dijkstra_loop_invariant:
  assumes "dijkstra_loop addr st = Inr st'" "P st"
    and "\<And>a s s'. P s \<Longrightarrow> prio_queue s \<noteq> [] \<Longrightarrow> loop_body a s = Inr s' \<Longrightarrow> P s'"
  shows "P st' \<and> prio_queue st' = []"
  using assms(1,2)
proof (induction addr st rule: dijkstra_loop.induct)
  case (1 addr st)
  show ?case
  proof (cases "prio_queue st = []")
    case True
    with "1.prems" show ?thesis by (simp add: dijkstra_loop.simps)
  next
    case False
    with "1.prems"(1) obtain s1 where b: "loop_body addr st = Inr s1"
      and l: "dijkstra_loop addr s1 = Inr st'"
      by (subst (asm) dijkstra_loop.simps) (auto split: sum.splits)
    from "1.prems"(2) False b have "P s1" by (rule assms(3))
    with "1.IH" [OF False b l] show ?thesis by simp
  qed
qed

text \<open>
  The same rules for a run that stops on a fault: what every step preserves holds in the
  state in which the run stops.
\<close>

lemma relax_edge_stopped:
  assumes "relax_edge u e st = Inl (f, x)"
  shows "x = st"
  using assms unfolding relax_edge_def Let_def
  by (auto split: if_splits sum.splits)

lemma relax_edges_invariant_stopped:
  assumes "relax_edges u es st = Inl (f, x)" "Q ds st"
    and "\<And>ds e s s'. Q ds s \<Longrightarrow> e \<in> set es \<Longrightarrow> relax_edge u e s = Inr s' \<Longrightarrow> Q (ds @ [e]) s'"
  shows "\<exists>ds'. Q ds' x"
  using assms
proof (induction es arbitrary: ds st)
  case Nil
  then show ?case by simp
next
  case (Cons e es)
  show ?case
  proof (cases "relax_edge u e st")
    case (Inl a)
    with Cons.prems(1) have "relax_edge u e st = Inl (f, x)" by simp
    then have "x = st" by (rule relax_edge_stopped)
    with Cons.prems(2) show ?thesis by blast
  next
    case (Inr st1)
    with Cons.prems(1) have 2: "relax_edges u es st1 = Inl (f, x)" by simp
    have "Q (ds @ [e]) st1"
      using Cons.prems(2) _ Inr by (rule Cons.prems(3)) simp
    with 2 show ?thesis
    proof (rule Cons.IH)
      fix ds' e' s s'
      assume "Q ds' s" "e' \<in> set es" "relax_edge u e' s = Inr s'"
      then show "Q (ds' @ [e']) s'"
        using Cons.prems(3) [of ds' s e' s'] by simp
    qed
  qed
qed

lemma relax_edges_preserves_stopped:
  assumes "relax_edges u es st = Inl (f, x)" "P st"
    and "\<And>e s s'. P s \<Longrightarrow> e \<in> set es \<Longrightarrow> relax_edge u e s = Inr s' \<Longrightarrow> P s'"
  shows "P x"
  using relax_edges_invariant_stopped [where Q = "\<lambda>_. P" and ds = "[]", OF assms(1,2)] assms(3)
  by blast

lemma loop_body_stopped_cases:
  assumes "loop_body addr st = Inl (f, x)" "prio_queue st \<noteq> []"
  obtains (outside) c where "c \<in> set (prio_queue st)"
      "x = st\<lparr>prio_queue := removeAll c (prio_queue st)\<rparr>"
  | (visit) c where "c \<in> set (prio_queue st)" "\<forall>(k, p) \<in> set (prio_queue st). fst c \<le> k"
      "snd c < length (s_nodes st)" "\<not> visited (s_nodes st ! snd c)"
      "relax_edges (snd c) (edges (s_nodes st ! snd c)) (marked st c) = Inl (f, x)"
proof -
  let ?c = "pq_begin addr (prio_queue st)"
  have 1: "?c \<in> set (prio_queue st)" using assms(2) by (rule pq_begin_in)
  have 2: "\<forall>(k, p) \<in> set (prio_queue st). fst ?c \<le> k"
    by (auto intro: pq_begin_least)
  show thesis
  proof (cases "snd ?c < length (s_nodes st)")
    case False
    with assms(1) have "x = st\<lparr>prio_queue := removeAll ?c (prio_queue st)\<rparr>"
      by (simp add: loop_body_def Let_def)
    with 1 show thesis by (rule outside)
  next
    case 3: True
    with assms(1) have 4: "\<not> visited (s_nodes st ! snd ?c)"
      by (auto simp: loop_body_def Let_def split: if_splits)
    with assms(1) 3
    have "relax_edges (snd ?c) (edges (s_nodes st ! snd ?c)) (marked st ?c) = Inl (f, x)"
      by (simp add: loop_body_def Let_def marked_def)
    with 1 2 3 4 show thesis by (rule visit)
  qed
qed

lemma dijkstra_loop_invariant_stopped:
  assumes "dijkstra_loop addr st = Inl (f, x)" "P st"
    and "\<And>a s s'. P s \<Longrightarrow> prio_queue s \<noteq> [] \<Longrightarrow> loop_body a s = Inr s' \<Longrightarrow> P s'"
    and "\<And>a s f x. P s \<Longrightarrow> prio_queue s \<noteq> [] \<Longrightarrow> loop_body a s = Inl (f, x) \<Longrightarrow> R x"
  shows "R x"
  using assms(1,2)
proof (induction addr st rule: dijkstra_loop.induct)
  case (1 addr st)
  from "1.prems"(1) have ne: "prio_queue st \<noteq> []"
    by (subst (asm) dijkstra_loop.simps) (auto split: if_splits)
  show ?case
  proof (cases "loop_body addr st")
    case (Inl a)
    with "1.prems"(1) ne have "loop_body addr st = Inl (f, x)"
      by (subst (asm) dijkstra_loop.simps) simp
    with "1.prems"(2) ne show ?thesis by (rule assms(4))
  next
    case (Inr s1)
    with "1.prems"(1) ne have l: "dijkstra_loop addr s1 = Inl (f, x)"
      by (subst (asm) dijkstra_loop.simps) simp
    from "1.prems"(2) ne Inr have "P s1" by (rule assms(3))
    with "1.IH" [OF ne Inr l] show ?thesis .
  qed
qed

section \<open>The start of the search\<close>

lemma dijkstra_search_Inr:
  assumes "dijkstra_search addr gr s = Inr st"
  shows "0 \<le> s" and "nat s < length (nodes gr)"
    and "dijkstra_loop addr (start_state gr (nat s)) = Inr st"
proof -
  from assms have r: "0 \<le> s \<and> s < int (length (nodes gr))"
    by (auto simp: dijkstra_search_def get_node_def graph_reset_def Let_def split: if_splits)
  then show "0 \<le> s" and "nat s < length (nodes gr)" by auto
  from r assms show "dijkstra_loop addr (start_state gr (nat s)) = Inr st"
    by (simp add: dijkstra_search_def get_node_def graph_reset_def Let_def start_state_def)
qed

lemma start_state_simps [simp]:
  "length (s_nodes (start_state gr p)) = length (nodes gr)"
  "prio_queue (start_state gr p) = [(0, p)]"
  "events (start_state gr p) = map (\<lambda>q. Set_Value q INF_val) [0..<length (nodes gr)] @ [Set_Value p 0]"
  by (simp_all add: start_state_def graph_reset_def)

lemma start_state_fields [simp]:
  assumes "q < length (nodes gr)"
  shows "visited (s_nodes (start_state gr p) ! q) = False"
    and "prev_node (s_nodes (start_state gr p) ! q) = None"
    and "edges (s_nodes (start_state gr p) ! q) = edges (nodes gr ! q)"
    and "index (s_nodes (start_state gr p) ! q) = index (nodes gr ! q)"
  using assms by (simp_all add: start_state_def graph_reset_def)

lemma start_state_value [simp]:
  assumes "q < length (nodes gr)" "p < length (nodes gr)"
  shows "node_value (s_nodes (start_state gr p) ! q) = (if q = p then 0 else INF_val)"
  using assms by (simp add: start_state_def graph_reset_def)

section \<open>The queue and the values\<close>

lemma inv_queue_start:
  assumes "p < length (nodes gr)"
  shows "inv_queue (start_state gr p)"
  using assms by (simp add: inv_queue_def INF_val_def)

lemma inv_queue_relax_edge:
  assumes "inv_queue st" "relax_edge u e st = Inr st'"
  shows "inv_queue st'"
  using assms(2)
proof (cases rule: relax_edge_cases)
  case skip
  with assms(1) show ?thesis by simp
next
  case (keep t)
  with assms(1) show ?thesis by simp
next
  case (improve t)
  let ?v = "connection_node e"
  from assms(1) improve(1) have le: "node_value (s_nodes st ! ?v) \<le> INF_val"
    by (simp add: inv_queue_def)
  with improve(4) have t: "t < INF_val" by simp
  show ?thesis
    unfolding inv_queue_def
  proof (intro conjI allI impI)
    fix k p
    assume "(k, p) \<in> set (prio_queue st')"
    then consider "k = t" "p = ?v" | "(k, p) \<in> set (prio_queue st)"
      using improve(5) by auto
    then have *: "p < length (s_nodes st') \<and> node_value (s_nodes st' ! p) \<le> k \<and> k < INF_val"
    proof cases
      case 1
      with improve t show ?thesis by simp
    next
      case 2
      with assms(1) have "p < length (s_nodes st)" "node_value (s_nodes st ! p) \<le> k" "k < INF_val"
        by (auto simp: inv_queue_def)
      with improve show ?thesis by auto
    qed
    from * show "p < length (s_nodes st')" by simp
    from * show "node_value (s_nodes st' ! p) \<le> k" by simp
    from * show "k < INF_val" by simp
  next
    fix p
    assume p: "p < length (s_nodes st')" "\<not> visited (s_nodes st' ! p)"
      "node_value (s_nodes st' ! p) \<noteq> INF_val"
    show "(node_value (s_nodes st' ! p), p) \<in> set (prio_queue st')"
    proof (cases "p = ?v")
      case True
      with improve show ?thesis by simp
    next
      case False
      with p improve have "p < length (s_nodes st)" "\<not> visited (s_nodes st ! p)"
        "node_value (s_nodes st ! p) \<noteq> INF_val"
        by auto
      with assms(1) have "(node_value (s_nodes st ! p), p) \<in> set (prio_queue st)"
        by (simp add: inv_queue_def)
      with False improve show ?thesis by simp
    qed
  next
    fix p
    assume "p < length (s_nodes st')"
    with improve have "p < length (s_nodes st)" by simp
    with assms(1) have "node_value (s_nodes st ! p) \<le> INF_val"
      by (simp add: inv_queue_def)
    with improve t show "node_value (s_nodes st' ! p) \<le> INF_val" by simp
  next
    fix p
    assume "p < length (s_nodes st')" "visited (s_nodes st' ! p)"
    with improve have "p < length (s_nodes st)" "visited (s_nodes st ! p)" by simp_all
    with assms(1) have "node_value (s_nodes st ! p) < INF_val"
      by (simp add: inv_queue_def)
    with improve t show "node_value (s_nodes st' ! p) < INF_val" by simp
  qed
qed

lemma inv_queue_stale:
  assumes "inv_queue st" "visited (s_nodes st ! snd c)"
  shows "inv_queue (st\<lparr>prio_queue := removeAll c (prio_queue st)\<rparr>)"
  unfolding inv_queue_def
proof (intro conjI allI impI)
  fix p
  assume p: "p < length (s_nodes (st\<lparr>prio_queue := removeAll c (prio_queue st)\<rparr>))"
    "\<not> visited (s_nodes (st\<lparr>prio_queue := removeAll c (prio_queue st)\<rparr>) ! p)"
    "node_value (s_nodes (st\<lparr>prio_queue := removeAll c (prio_queue st)\<rparr>) ! p) \<noteq> INF_val"
  with assms(1) have "(node_value (s_nodes st ! p), p) \<in> set (prio_queue st)"
    by (simp add: inv_queue_def)
  moreover from p(2) assms(2) have "p \<noteq> snd c" by auto
  ultimately show "(node_value (s_nodes (st\<lparr>prio_queue := removeAll c (prio_queue st)\<rparr>) ! p), p)
      \<in> set (prio_queue (st\<lparr>prio_queue := removeAll c (prio_queue st)\<rparr>))"
    by auto
qed (use assms(1) in \<open>auto simp: inv_queue_def\<close>)

lemma inv_queue_marked:
  assumes "inv_queue st" "c \<in> set (prio_queue st)"
  shows "inv_queue (marked st c)"
proof -
  from assms have c: "snd c < length (s_nodes st)" "node_value (s_nodes st ! snd c) \<le> fst c"
    "fst c < INF_val"
    by (cases c; auto simp: inv_queue_def)+
  show ?thesis
    unfolding inv_queue_def
  proof (intro conjI allI impI)
    fix p
    assume p: "p < length (s_nodes (marked st c))" "\<not> visited (s_nodes (marked st c) ! p)"
      "node_value (s_nodes (marked st c) ! p) \<noteq> INF_val"
    with c(1) have "p \<noteq> snd c" "\<not> visited (s_nodes st ! p)" by auto
    with p assms(1) have "(node_value (s_nodes st ! p), p) \<in> set (prio_queue st)"
      by (simp add: inv_queue_def)
    with \<open>p \<noteq> snd c\<close> show "(node_value (s_nodes (marked st c) ! p), p) \<in> set (prio_queue (marked st c))"
      by auto
  next
    fix p
    assume "p < length (s_nodes (marked st c))" "visited (s_nodes (marked st c) ! p)"
    with c assms(1) show "node_value (s_nodes (marked st c) ! p) < INF_val"
      by (cases "p = snd c") (auto simp: inv_queue_def)
  qed (use assms(1) in \<open>auto simp: inv_queue_def\<close>)
qed

lemma inv_queue_loop_body:
  assumes "inv_queue st" "prio_queue st \<noteq> []" "loop_body addr st = Inr st'"
  shows "inv_queue st'"
  using assms(3,2)
proof (cases rule: loop_body_cases)
  case (stale c)
  with assms(1) show ?thesis by (simp add: inv_queue_stale)
next
  case (visit c)
  from assms(1) visit(1) have "inv_queue (marked st c)" by (rule inv_queue_marked)
  with visit(5) show ?thesis
    by (rule relax_edges_preserves) (rule inv_queue_relax_edge)
qed

lemma dijkstra_search_inv_queue:
  assumes "dijkstra_search addr gr s = Inr st"
  shows "inv_queue st" and "prio_queue st = []"
proof -
  note s = dijkstra_search_Inr [OF assms]
  have "inv_queue st \<and> prio_queue st = []"
    using s(3) inv_queue_start [OF s(2)]
    by (rule dijkstra_loop_invariant) (rule inv_queue_loop_body)
  then show "inv_queue st" and "prio_queue st = []" by simp_all
qed

text \<open>
  A run that stops on a fault stops before the loop, on a start index outside the graph,
  or in the loop.
\<close>

lemma dijkstra_search_stopped:
  assumes "dijkstra_search addr gr s = Inl (f, x)"
  obtains (outside) "length (s_nodes x) = length (nodes gr)"
      "\<forall>p < length (nodes gr). \<not> visited (s_nodes x ! p)"
      "events x = map (\<lambda>q. Set_Value q INF_val) [0..<length (nodes gr)]"
  | (inside) "0 \<le> s" "nat s < length (nodes gr)"
      "dijkstra_loop addr (start_state gr (nat s)) = Inl (f, x)"
proof (cases "0 \<le> s \<and> s < int (length (nodes gr))")
  case False
  with assms have x: "x = \<lparr>s_nodes = nodes (graph_reset gr s INF_val), prio_queue = [],
      events = map (\<lambda>p. Set_Value p INF_val) [0..<length (nodes (graph_reset gr s INF_val))]\<rparr>"
    by (auto simp: dijkstra_search_def get_node_def graph_reset_def Let_def split: if_splits)
  show thesis
  proof (rule outside)
    show "length (s_nodes x) = length (nodes gr)" by (simp add: x graph_reset_def)
    show "\<forall>p < length (nodes gr). \<not> visited (s_nodes x ! p)" by (simp add: x graph_reset_def)
    show "events x = map (\<lambda>q. Set_Value q INF_val) [0..<length (nodes gr)]"
      by (simp add: x graph_reset_def)
  qed
next
  case True
  with assms have "dijkstra_loop addr (start_state gr (nat s)) = Inl (f, x)"
    by (simp add: dijkstra_search_def get_node_def graph_reset_def Let_def start_state_def)
  moreover from True have "0 \<le> s" "nat s < length (nodes gr)" by auto
  ultimately show thesis using inside by blast
qed

section \<open>The observed calls\<close>

lemma inv_events_start:
  assumes "p < length (nodes gr)"
  shows "inv_events (start_state gr p)"
proof -
  let ?evs = "events (start_state gr p)"
  have a: "Mark_Visited q v \<notin> set ?evs" for q v
    by auto
  have "?evs ! i \<noteq> Mark_Visited q v" if "i < length ?evs" for i q v
    using a [of q v] that nth_mem [OF that] by metis
  with a show ?thesis
    unfolding inv_events_def by (metis less_trans)
qed

lemma inv_events_snoc:
  assumes "inv_events st"
    and "length (s_nodes st') = length (s_nodes st)"
    and "events st' = events st @ [ev]"
    and "\<And>p. p < length (s_nodes st) \<Longrightarrow> visited (s_nodes st ! p) \<Longrightarrow>
           visited (s_nodes st' ! p) \<and> node_value (s_nodes st' ! p) = node_value (s_nodes st ! p)"
    and "\<And>p v. ev = Mark_Visited p v \<Longrightarrow>
           p < length (s_nodes st) \<and> visited (s_nodes st' ! p) \<and> node_value (s_nodes st' ! p) = v"
    and "\<And>p w. ev = Set_Value p w \<Longrightarrow> p < length (s_nodes st) \<and> \<not> visited (s_nodes st ! p)"
  shows "inv_events st'"
  unfolding inv_events_def
proof (intro conjI allI impI)
  fix p v
  assume "Mark_Visited p v \<in> set (events st')"
  then consider "Mark_Visited p v \<in> set (events st)" | "ev = Mark_Visited p v"
    using assms(3) by auto
  then have "p < length (s_nodes st') \<and> visited (s_nodes st' ! p) \<and> node_value (s_nodes st' ! p) = v"
  proof cases
    case 1
    with assms(1) have "p < length (s_nodes st)" "visited (s_nodes st ! p)"
      "node_value (s_nodes st ! p) = v"
      by (auto simp: inv_events_def)
    with assms(2,4) show ?thesis by auto
  next
    case 2
    with assms(2,5) show ?thesis by auto
  qed
  then show "p < length (s_nodes st')" "visited (s_nodes st' ! p)" "node_value (s_nodes st' ! p) = v"
    by simp_all
next
  fix i j p v w
  assume ij: "i < j" "j < length (events st')" and i: "events st' ! i = Mark_Visited p v"
  from ij assms(3) have il: "i < length (events st)" by simp
  with i assms(3) have i': "events st ! i = Mark_Visited p v" by (simp add: nth_append)
  show "events st' ! j \<noteq> Set_Value p w"
  proof (cases "j < length (events st)")
    case True
    with assms(1) ij(1) i' have "events st ! j \<noteq> Set_Value p w"
      unfolding inv_events_def by blast
    with True assms(3) show ?thesis by (simp add: nth_append)
  next
    case False
    with ij(2) assms(3) have j: "events st' ! j = ev" by (simp add: nth_append)
    from i' il have "Mark_Visited p v \<in> set (events st)" by (metis nth_mem)
    with assms(1) have "p < length (s_nodes st)" "visited (s_nodes st ! p)"
      by (auto simp: inv_events_def)
    with assms(6) [of p w] j show ?thesis by auto
  qed
qed

lemma inv_events_relax_edge:
  assumes "inv_events st" "relax_edge u e st = Inr st'"
  shows "inv_events st'"
  using assms(2)
proof (cases rule: relax_edge_cases)
  case skip
  with assms(1) show ?thesis by simp
next
  case (keep t)
  with assms(1) show ?thesis by simp
next
  case (improve t)
  from assms(1) show ?thesis
  proof (rule inv_events_snoc)
    show "events st' = events st @ [Set_Value (connection_node e) t]"
      using improve by simp
    fix p
    assume "p < length (s_nodes st)" "visited (s_nodes st ! p)"
    with improve show "visited (s_nodes st' ! p) \<and>
        node_value (s_nodes st' ! p) = node_value (s_nodes st ! p)"
      by auto
  qed (use improve in auto)
qed

lemma inv_events_marked:
  assumes "inv_events st" "snd c < length (s_nodes st)"
  shows "inv_events (marked st c)"
  using assms(1)
proof (rule inv_events_snoc)
  show "events (marked st c) = events st @ [Mark_Visited (snd c) (node_value (s_nodes st ! snd c))]"
    by simp
qed (use assms(2) in auto)

lemma inv_events_loop_body:
  assumes "inv_events st" "prio_queue st \<noteq> []" "loop_body addr st = Inr st'"
  shows "inv_events st'"
  using assms(3,2)
proof (cases rule: loop_body_cases)
  case (stale c)
  with assms(1) show ?thesis by (simp add: inv_events_def)
next
  case (visit c)
  from assms(1) visit(3) have "inv_events (marked st c)" by (rule inv_events_marked)
  with visit(5) show ?thesis
    by (rule relax_edges_preserves) (rule inv_events_relax_edge)
qed

lemma dijkstra_search_inv_events:
  assumes "dijkstra_search addr gr s = Inr st"
  shows "inv_events st"
proof -
  note s = dijkstra_search_Inr [OF assms]
  have "inv_events st \<and> prio_queue st = []"
    using s(3) inv_events_start [OF s(2)]
    by (rule dijkstra_loop_invariant) (rule inv_events_loop_body)
  then show ?thesis by simp
qed

lemma dijkstra_search_length:
  assumes "dijkstra_search addr gr s = Inr st"
  shows "length (s_nodes st) = length (nodes gr)"
proof -
  note s = dijkstra_search_Inr [OF assms]
  have step: "length (s_nodes s') = length (nodes gr)"
    if "length (s_nodes s0) = length (nodes gr)" "prio_queue s0 \<noteq> []" "loop_body a s0 = Inr s'"
    for a s0 s'
    using that(3,2)
  proof (cases rule: loop_body_cases)
    case (stale c)
    with that(1) show ?thesis by simp
  next
    case (visit c)
    from relax_edges_visited [OF visit(5)] that(1) show ?thesis by simp
  qed
  have "length (s_nodes st) = length (nodes gr) \<and> prio_queue st = []"
    using s(3) _ step by (rule dijkstra_loop_invariant) simp
  then show ?thesis by simp
qed

lemma inv_events_loop_body_stopped:
  assumes "inv_events st" "prio_queue st \<noteq> []" "loop_body addr st = Inl (f, x)"
  shows "inv_events x"
  using assms(3,2)
proof (cases rule: loop_body_stopped_cases)
  case (outside c)
  with assms(1) show ?thesis by (simp add: inv_events_def)
next
  case (visit c)
  from assms(1) visit(3) have "inv_events (marked st c)" by (rule inv_events_marked)
  with visit(5) show ?thesis
    by (rule relax_edges_preserves_stopped) (rule inv_events_relax_edge)
qed

lemma no_mark_before_loop:
  assumes "events x = map (\<lambda>q. Set_Value q INF_val) [0..<n]" "i < length (events x)"
  shows "events x ! i \<noteq> Mark_Visited p v"
  using assms by simp

lemma last_state_inv_events: "inv_events (last_state (dijkstra_search addr gr s))"
proof (cases "dijkstra_search addr gr s")
  case (Inr st)
  then show ?thesis by (simp add: last_state_def dijkstra_search_inv_events)
next
  case (Inl a)
  obtain f x where a: "a = (f, x)" by (cases a)
  from Inl a have r: "dijkstra_search addr gr s = Inl (f, x)" by simp
  from r have "inv_events x"
  proof (cases rule: dijkstra_search_stopped)
    case outside
    have n: "events x ! i \<noteq> Mark_Visited p v" if "i < length (events x)" for i p v
      using outside(3) that by (rule no_mark_before_loop)
    have "Mark_Visited p v \<notin> set (events x)" for p v
      using n [of _ p v] by (metis in_set_conv_nth)
    with n show ?thesis
      unfolding inv_events_def by (metis less_trans)
  next
    case inside
    from inside(3) inv_events_start [OF inside(2)] show ?thesis
      by (rule dijkstra_loop_invariant_stopped)
        (rule inv_events_loop_body, assumption+, rule inv_events_loop_body_stopped)
  qed
  with r show ?thesis by (simp add: last_state_def)
qed

section \<open>Chains of predecessors\<close>

lemma prev_chain_cong:
  assumes "prev_chain ns p path" "length ns' = length ns"
    and "\<forall>x \<in> set path. prev_node (ns' ! x) = prev_node (ns ! x)"
  shows "prev_chain ns' p path"
  using assms
proof (induction rule: prev_chain.induct)
  case (root p ns)
  then show ?case by (auto intro: prev_chain.root)
next
  case (link p ns q path)
  from link.prems link.IH have "prev_chain ns' q path" by simp
  moreover from link.prems link.hyps have "p < length ns'" "prev_node (ns' ! p) = Some q"
    by simp_all
  ultimately show ?case by (auto intro: prev_chain.link)
qed

lemma prev_chain_props:
  assumes "prev_chain ns p path"
  shows "path \<noteq> []" and "last path = p" and "hd path < length ns"
    and "prev_node (ns ! hd path) = None"
    and "\<forall>i. Suc i < length path \<longrightarrow> prev_node (ns ! (path ! Suc i)) = Some (path ! i)"
  using assms
proof (induction rule: prev_chain.induct)
  case (root p ns)
  {
    case 1 show ?case by simp
  next
    case 2 show ?case by simp
  next
    case 3 from root show ?case by simp
  next
    case 4 from root show ?case by simp
  next
    case 5 show ?case by simp
  }
next
  case (link p ns q path)
  {
    case 1 show ?case by simp
  next
    case 2 show ?case by simp
  next
    case 3 from link show ?case by simp
  next
    case 4 from link show ?case by simp
  next
    case 5
    show ?case
    proof (intro allI impI)
      fix i
      assume i: "Suc i < length (path @ [p])"
      show "prev_node (ns ! ((path @ [p]) ! Suc i)) = Some ((path @ [p]) ! i)"
      proof (cases "Suc i < length path")
        case True
        with link.IH(5) show ?thesis by (simp add: nth_append)
      next
        case False
        with i have e: "Suc i = length path" by simp
        then have "(path @ [p]) ! Suc i = p" by simp
        moreover have "(path @ [p]) ! i = q"
        proof -
          from e have "i = length path - 1" by simp
          with link.IH(1,2) have "path ! i = q" by (simp add: last_conv_nth)
          with e show ?thesis by (simp add: nth_append)
        qed
        ultimately show ?thesis using link.hyps by simp
      qed
    qed
  }
qed

lemma follow_prev_chain:
  assumes "prev_chain ns p path"
  shows "follow_prev ns (Some p) acc = Some (Inr (acc @ rev path))"
  using assms
proof (induction arbitrary: acc rule: prev_chain.induct)
  case (root p ns)
  then show ?case
    by (subst follow_prev.simps, simp, subst follow_prev.simps, simp)
next
  case (link p ns q path)
  have "follow_prev ns (Some p) acc = follow_prev ns (Some q) (acc @ [p])"
    using link.hyps by (subst follow_prev.simps) simp
  with link.IH [of "acc @ [p]"] show ?case by simp
qed

section \<open>Predecessors\<close>

lemma inv_prevD:
  assumes "inv_prev s st"
  shows "s < length (s_nodes st)"
    and "\<And>p. p < length (s_nodes st) \<Longrightarrow> visited (s_nodes st ! p) \<Longrightarrow> visited (s_nodes st ! s)"
    and "\<And>k p. (k, p) \<in> set (prio_queue st) \<Longrightarrow> p = s \<or> visited (s_nodes st ! s)"
    and "prev_node (s_nodes st ! s) = None"
    and "\<And>p. p < length (s_nodes st) \<Longrightarrow> prev_node (s_nodes st ! p) = None \<Longrightarrow>
           p = s \<or> node_value (s_nodes st ! p) = INF_val"
    and "\<And>p q. p < length (s_nodes st) \<Longrightarrow> prev_node (s_nodes st ! p) = Some q \<Longrightarrow>
           q < length (s_nodes st) \<and> visited (s_nodes st ! q) \<and>
           node_value (s_nodes st ! p) < INF_val \<and>
           (\<exists>e \<in> set (edges (s_nodes st ! q)). connection_node e = p \<and>
              get_travel_time e (node_value (s_nodes st ! q)) = Inr (node_value (s_nodes st ! p)))"
    and "\<And>p. p < length (s_nodes st) \<Longrightarrow> visited (s_nodes st ! p) \<Longrightarrow>
           \<exists>path. prev_chain (s_nodes st) p path \<and>
             (\<forall>x \<in> set path. x < length (s_nodes st) \<and> visited (s_nodes st ! x))"
  using assms unfolding inv_prev_def by blast+

lemma inv_prev_start:
  assumes "s < length (nodes gr)"
  shows "inv_prev s (start_state gr s)"
  using assms unfolding inv_prev_def by simp

lemma inv_prevI:
  assumes "s < length (s_nodes st)"
    and "\<And>p. p < length (s_nodes st) \<Longrightarrow> visited (s_nodes st ! p) \<Longrightarrow> visited (s_nodes st ! s)"
    and "\<And>k p. (k, p) \<in> set (prio_queue st) \<Longrightarrow> p = s \<or> visited (s_nodes st ! s)"
    and "prev_node (s_nodes st ! s) = None"
    and "\<And>p. p < length (s_nodes st) \<Longrightarrow> prev_node (s_nodes st ! p) = None \<Longrightarrow>
           p = s \<or> node_value (s_nodes st ! p) = INF_val"
    and "\<And>p q. p < length (s_nodes st) \<Longrightarrow> prev_node (s_nodes st ! p) = Some q \<Longrightarrow>
           q < length (s_nodes st) \<and> visited (s_nodes st ! q) \<and>
           node_value (s_nodes st ! p) < INF_val \<and>
           (\<exists>e \<in> set (edges (s_nodes st ! q)). connection_node e = p \<and>
              get_travel_time e (node_value (s_nodes st ! q)) = Inr (node_value (s_nodes st ! p)))"
    and "\<And>p. p < length (s_nodes st) \<Longrightarrow> visited (s_nodes st ! p) \<Longrightarrow>
           \<exists>path. prev_chain (s_nodes st) p path \<and>
             (\<forall>x \<in> set path. x < length (s_nodes st) \<and> visited (s_nodes st ! x))"
  shows "inv_prev s st"
  unfolding inv_prev_def
proof (intro conjI)
  show "s < length (s_nodes st)" by fact
  show "(\<exists>p < length (s_nodes st). visited (s_nodes st ! p)) \<longrightarrow> visited (s_nodes st ! s)"
    using assms(2) by blast
  show "\<forall>k p. (k, p) \<in> set (prio_queue st) \<longrightarrow> p = s \<or> visited (s_nodes st ! s)"
    using assms(3) by blast
  show "prev_node (s_nodes st ! s) = None" by fact
  show "\<forall>p < length (s_nodes st). prev_node (s_nodes st ! p) = None \<longrightarrow>
        p = s \<or> node_value (s_nodes st ! p) = INF_val"
    using assms(5) by blast
  show "\<forall>p < length (s_nodes st). \<forall>q. prev_node (s_nodes st ! p) = Some q \<longrightarrow>
        q < length (s_nodes st) \<and> visited (s_nodes st ! q) \<and>
        node_value (s_nodes st ! p) < INF_val \<and>
        (\<exists>e \<in> set (edges (s_nodes st ! q)). connection_node e = p \<and>
           get_travel_time e (node_value (s_nodes st ! q)) = Inr (node_value (s_nodes st ! p)))"
    using assms(6) by (intro allI impI) 
  show "\<forall>p < length (s_nodes st). visited (s_nodes st ! p) \<longrightarrow>
        (\<exists>path. prev_chain (s_nodes st) p path \<and>
           (\<forall>x \<in> set path. x < length (s_nodes st) \<and> visited (s_nodes st ! x)))"
    using assms(7) by (intro allI impI)
qed

lemma inv_prev_relax_edge:
  assumes "inv_prev s st" "inv_queue st" "u < length (s_nodes st)" "visited (s_nodes st ! u)"
    and "e \<in> set (edges (s_nodes st ! u))" "relax_edge u e st = Inr st'"
  shows "inv_prev s st'"
  using assms(6)
proof (cases rule: relax_edge_cases)
  case skip
  with assms(1) show ?thesis by simp
next
  case (keep t)
  with assms(1) show ?thesis by simp
next
  case (improve t)
  let ?v = "connection_node e"
  note d = inv_prevD [OF assms(1)]
  from d(2) [OF assms(3,4)] have vs: "visited (s_nodes st ! s)" .
  with improve(2) have vs_ne: "?v \<noteq> s" by auto
  from improve(2) assms(4) have vu_ne: "?v \<noteq> u" by auto
  from assms(2) improve(1) have "node_value (s_nodes st ! ?v) \<le> INF_val"
    by (simp add: inv_queue_def)
  with improve(4) have t: "t < INF_val" by simp
  show ?thesis
  proof (rule inv_prevI)
    show "s < length (s_nodes st')" using d(1) improve by simp
    show "visited (s_nodes st' ! s)" using vs improve by simp
    show "prev_node (s_nodes st' ! s) = None" using d(4) vs_ne improve by simp
    show "p = s \<or> visited (s_nodes st' ! s)" for p using vs improve by simp
  next
    fix p
    assume p: "p < length (s_nodes st')" "prev_node (s_nodes st' ! p) = None"
    with improve have "p \<noteq> ?v" by auto
    with p improve d(5) [of p] show "p = s \<or> node_value (s_nodes st' ! p) = INF_val"
      by simp
  next
    fix p q
    assume p: "p < length (s_nodes st')" "prev_node (s_nodes st' ! p) = Some q"
    show "q < length (s_nodes st') \<and> visited (s_nodes st' ! q) \<and>
           node_value (s_nodes st' ! p) < INF_val \<and>
           (\<exists>e \<in> set (edges (s_nodes st' ! q)). connection_node e = p \<and>
              get_travel_time e (node_value (s_nodes st' ! q)) = Inr (node_value (s_nodes st' ! p)))"
    proof (cases "p = ?v")
      case True
      with p improve have "q = u" by simp
      with True improve assms(3,4,5) vu_ne t show ?thesis by auto
    next
      case False
      with p improve have pp: "p < length (s_nodes st)" "prev_node (s_nodes st ! p) = Some q"
        by simp_all
      note f = d(6) [OF pp]
      with improve(2) have "q \<noteq> ?v" by auto
      with f False improve(1,5) show ?thesis by simp
    qed
  next
    fix p
    assume "p < length (s_nodes st')" "visited (s_nodes st' ! p)"
    with improve have "p < length (s_nodes st)" "visited (s_nodes st ! p)" by simp_all
    from d(7) [OF this] obtain path where c: "prev_chain (s_nodes st) p path"
      and a: "\<forall>x \<in> set path. x < length (s_nodes st) \<and> visited (s_nodes st ! x)"
      by blast
    from a improve(2) have "\<forall>x \<in> set path. x \<noteq> ?v" by auto
    with improve(1,5) have "\<forall>x \<in> set path. prev_node (s_nodes st' ! x) = prev_node (s_nodes st ! x)"
      by simp
    with c have "prev_chain (s_nodes st') p path"
      using improve by (intro prev_chain_cong [of "s_nodes st" p path "s_nodes st'"]) simp_all
    with a improve show "\<exists>path. prev_chain (s_nodes st') p path \<and>
        (\<forall>x \<in> set path. x < length (s_nodes st') \<and> visited (s_nodes st' ! x))"
      by auto
  qed
qed

lemma inv_prev_stale:
  assumes "inv_prev s st"
  shows "inv_prev s (st\<lparr>prio_queue := removeAll c (prio_queue st)\<rparr>)"
proof -
  note d = inv_prevD [OF assms]
  show ?thesis
  proof (rule inv_prevI)
    fix k p
    assume "(k, p) \<in> set (prio_queue (st\<lparr>prio_queue := removeAll c (prio_queue st)\<rparr>))"
    then have "(k, p) \<in> set (prio_queue st)" by simp
    then show "p = s \<or> visited (s_nodes (st\<lparr>prio_queue := removeAll c (prio_queue st)\<rparr>) ! s)"
      using d(3) by simp
  qed (use d in simp_all)
qed

lemma inv_prev_marked:
  assumes "inv_prev s st" "c \<in> set (prio_queue st)" "snd c < length (s_nodes st)"
  shows "inv_prev s (marked st c)"
proof -
  note d = inv_prevD [OF assms(1)]
  let ?u = "snd c"
  from d(3) [of "fst c" ?u] assms(2) have us: "?u = s \<or> visited (s_nodes st ! s)" by simp
  have keep: "prev_chain (s_nodes (marked st c)) p path" if "prev_chain (s_nodes st) p path" for p path
    using that by (rule prev_chain_cong) simp_all
  show ?thesis
  proof (rule inv_prevI)
    show "s < length (s_nodes (marked st c))" using d(1) by simp
    show "visited (s_nodes (marked st c) ! s)" using us assms(3) by auto
    show "prev_node (s_nodes (marked st c) ! s) = None" using d(4) by simp
    show "p = s \<or> visited (s_nodes (marked st c) ! s)" for p using us assms(3) by auto
  next
    fix p
    assume "p < length (s_nodes (marked st c))" "prev_node (s_nodes (marked st c) ! p) = None"
    with d(5) [of p] show "p = s \<or> node_value (s_nodes (marked st c) ! p) = INF_val" by simp
  next
    fix p q
    assume "p < length (s_nodes (marked st c))" "prev_node (s_nodes (marked st c) ! p) = Some q"
    then have "p < length (s_nodes st)" "prev_node (s_nodes st ! p) = Some q" by simp_all
    from d(6) [OF this] assms(3)
    show "q < length (s_nodes (marked st c)) \<and> visited (s_nodes (marked st c) ! q) \<and>
           node_value (s_nodes (marked st c) ! p) < INF_val \<and>
           (\<exists>e \<in> set (edges (s_nodes (marked st c) ! q)). connection_node e = p \<and>
              get_travel_time e (node_value (s_nodes (marked st c) ! q)) =
                Inr (node_value (s_nodes (marked st c) ! p)))"
      by simp
  next
    fix p
    assume p: "p < length (s_nodes (marked st c))" "visited (s_nodes (marked st c) ! p)"
    have old: "\<exists>path. prev_chain (s_nodes (marked st c)) x path \<and>
        (\<forall>y \<in> set path. y < length (s_nodes (marked st c)) \<and> visited (s_nodes (marked st c) ! y))"
      if "x < length (s_nodes st)" "visited (s_nodes st ! x)" for x
    proof -
      from d(7) [OF that] obtain path where "prev_chain (s_nodes st) x path"
        "\<forall>y \<in> set path. y < length (s_nodes st) \<and> visited (s_nodes st ! y)"
        by blast
      with keep [of x path] assms(3) show ?thesis by auto
    qed
    show "\<exists>path. prev_chain (s_nodes (marked st c)) p path \<and>
        (\<forall>x \<in> set path. x < length (s_nodes (marked st c)) \<and> visited (s_nodes (marked st c) ! x))"
    proof (cases "visited (s_nodes st ! p)")
      case True
      with p old show ?thesis by simp
    next
      case False
      with p assms(3) have pu: "p = ?u" by simp
      show ?thesis
      proof (cases "prev_node (s_nodes st ! ?u)")
        case None
        with assms(3) have "prev_chain (s_nodes (marked st c)) ?u [?u]"
          by (intro prev_chain.root) simp_all
        with pu assms(3) show ?thesis by (intro exI [of _ "[?u]"]) simp
      next
        case (Some q)
        from d(6) [OF assms(3) Some] have "q < length (s_nodes st)" "visited (s_nodes st ! q)"
          by simp_all
        from old [OF this] obtain path where c: "prev_chain (s_nodes (marked st c)) q path"
          and a: "\<forall>y \<in> set path. y < length (s_nodes (marked st c)) \<and> visited (s_nodes (marked st c) ! y)"
          by blast
        from Some assms(3) c have "prev_chain (s_nodes (marked st c)) ?u (path @ [?u])"
          by (intro prev_chain.link [of _ _ q]) simp_all
        with a pu assms(3) show ?thesis by (intro exI [of _ "path @ [?u]"]) auto
      qed
    qed
  qed
qed

lemma inv_tree_loop_body:
  assumes "inv_tree s st" "prio_queue st \<noteq> []" "loop_body addr st = Inr st'"
  shows "inv_tree s st'"
proof -
  from assms have q: "inv_queue st'" and ev: "inv_events st'"
    by (auto simp: inv_tree_def intro: inv_queue_loop_body inv_events_loop_body)
  from assms(1) have iq: "inv_queue st" and ip: "inv_prev s st" by (simp_all add: inv_tree_def)
  from assms(3,2) have "inv_prev s st'"
  proof (cases rule: loop_body_cases)
    case (stale c)
    with ip show ?thesis by (simp add: inv_prev_stale)
  next
    case (visit c)
    let ?u = "snd c"
    let ?P = "\<lambda>x. inv_prev s x \<and> inv_queue x \<and> ?u < length (s_nodes x) \<and>
      visited (s_nodes x ! ?u) \<and> edges (s_nodes x ! ?u) = edges (s_nodes st ! ?u)"
    have "?P (marked st c)"
      using ip iq visit(1,3) by (simp add: inv_prev_marked inv_queue_marked)
    with visit(5) have "?P st'"
    proof (rule relax_edges_preserves)
      fix e x x'
      assume x: "?P x" and e: "e \<in> set (edges (s_nodes st ! ?u))"
        and r: "relax_edge ?u e x = Inr x'"
      from x e r have "inv_prev s x'" by (intro inv_prev_relax_edge [of s x ?u e x']) simp_all
      moreover from x r have "inv_queue x'" by (intro inv_queue_relax_edge [of x ?u e x']) simp_all
      moreover from relax_edge_visited [OF r] x have "?u < length (s_nodes x')"
        "visited (s_nodes x' ! ?u)" by simp_all
      moreover from r x have "edges (s_nodes x' ! ?u) = edges (s_nodes st ! ?u)"
        by (cases rule: relax_edge_cases) simp_all
      ultimately show "?P x'" by simp
    qed
    then show ?thesis by simp
  qed
  with q ev show ?thesis by (simp add: inv_tree_def)
qed

lemma dijkstra_search_inv_tree:
  assumes "dijkstra_search addr gr s = Inr st"
  shows "inv_tree (nat s) st" and "prio_queue st = []"
proof -
  note s = dijkstra_search_Inr [OF assms]
  have "inv_tree (nat s) (start_state gr (nat s))"
    using s(2) by (simp add: inv_tree_def inv_queue_start inv_prev_start inv_events_start)
  with s(3) have "inv_tree (nat s) st \<and> prio_queue st = []"
    by (rule dijkstra_loop_invariant) (rule inv_tree_loop_body)
  then show "inv_tree (nat s) st" and "prio_queue st = []" by simp_all
qed

section \<open>What the search leaves behind\<close>

lemma inv_source_loop_body:
  assumes "inv_source s st" "prio_queue st \<noteq> []" "loop_body addr st = Inr st'"
  shows "inv_source s st'"
  using assms(3,2)
proof (cases rule: loop_body_cases)
  case (stale c)
  with assms(1) show ?thesis
    by (cases "c = (0, s)") (auto simp: inv_source_def)
next
  case (visit c)
  have "inv_source s (marked st c)"
    using assms(1) visit(3) by (cases "c = (0, s)") (auto simp: inv_source_def)
  with visit(5) show ?thesis
  proof (rule relax_edges_preserves)
    fix e x x'
    assume x: "inv_source s x" and "relax_edge (snd c) e x = Inr x'"
    from this(2) show "inv_source s x'"
      by (cases rule: relax_edge_cases) (use x in \<open>auto simp: inv_source_def\<close>)
  qed
qed

lemma dijkstra_search_source_visited:
  assumes "dijkstra_search addr gr s = Inr st"
  shows "visited (s_nodes st ! nat s)"
proof -
  note s = dijkstra_search_Inr [OF assms]
  have "inv_source (nat s) (start_state gr (nat s))"
    using s(2) by (simp add: inv_source_def)
  with s(3) have "inv_source (nat s) st \<and> prio_queue st = []"
    by (rule dijkstra_loop_invariant) (rule inv_source_loop_body)
  then show ?thesis by (auto simp: inv_source_def)
qed

lemma dijkstra_timetable_Inr:
  assumes "dijkstra_timetable addr gr s = Inr g'"
  obtains st where "dijkstra_search addr gr s = Inr st" "nodes g' = s_nodes st"
    "start_index g' = s"
  using assms unfolding dijkstra_timetable_def by (auto split: sum.splits)

lemma final_unvisited_value:
  assumes "dijkstra_search addr gr s = Inr st" "p < length (s_nodes st)"
    "\<not> visited (s_nodes st ! p)"
  shows "node_value (s_nodes st ! p) = INF_val"
  using dijkstra_search_inv_queue [OF assms(1)] assms(2,3)
  unfolding inv_queue_def by auto

lemma final_visited_value:
  assumes "dijkstra_search addr gr s = Inr st" "p < length (s_nodes st)"
    "visited (s_nodes st ! p)"
  shows "node_value (s_nodes st ! p) < INF_val"
  using dijkstra_search_inv_queue(1) [OF assms(1)] assms(2,3)
  unfolding inv_queue_def by auto

lemma follow_prev_from_chain:
  assumes "prev_chain ns p path"
  shows "follow_prev ns (prev_node (ns ! p)) [p] = Some (Inr (rev path))"
  using assms
proof (cases rule: prev_chain.cases)
  case root
  then show ?thesis by (subst follow_prev.simps) simp
next
  case (link q path')
  from follow_prev_chain [OF link(4), of "[p]"] link show ?thesis by simp
qed

lemma get_path_outside:
  assumes "\<not> (0 \<le> t \<and> t < int (length (nodes g)))" "- 2147483648 \<le> t" "t \<le> 2147483647"
    and "length (nodes g) \<le> 2147483647"
  shows "get_path g t = Some (Inr [])"
proof -
  have "int (length (nodes g)) \<le> t mod 18446744073709551616"
  proof (cases "t < 0")
    case True
    with assms(2) have "(t + 18446744073709551616) mod 18446744073709551616 = t + 18446744073709551616"
      by (intro mod_pos_pos_trivial) simp_all
    then have "t mod 18446744073709551616 = t + 18446744073709551616"
      by simp
    with assms(2,4) show ?thesis by simp
  next
    case False
    with assms(3) have "t mod 18446744073709551616 = t"
      by (intro mod_pos_pos_trivial) simp_all
    with False assms(1) show ?thesis by simp
  qed
  then show ?thesis by (simp add: get_path_def)
qed

lemma get_path_inside:
  assumes "0 \<le> t" "t < int (length (nodes g))" "0 \<le> start_index g"
    "start_index g < int (length (nodes g))" "t \<le> 2147483647"
  shows "get_path g t =
     map_option (map_sum id rev)
       (follow_prev (nodes g) (prev_node (nodes g ! nat t))
          (if visited (nodes g ! nat t) then [nat t] else []))"
proof -
  from assms(1,5) have "t mod 18446744073709551616 = t"
    by (intro mod_pos_pos_trivial) simp_all
  with assms show ?thesis by (simp add: get_path_def get_node_def)
qed

section \<open>The visited nodes, their values and their paths\<close>

lemma scenario_search: "dijkstra_search (\<lambda>n. n) scenario_graph 0 = Inr scenario_final"
  by code_simp

lemma scenario_run: "dijkstra_timetable (\<lambda>n. n) scenario_graph 0 = Inr scenario_result"
  by (simp add: dijkstra_timetable_def scenario_search scenario_result_def)

lemma scenario_events: "run_events (\<lambda>n. n) scenario_graph 0 = events scenario_final"
  by (simp add: run_events_def last_state_def scenario_search)

lemma one_shot_stops: "dijkstra_timetable (\<lambda>n. n) one_shot_graph 0 = Inl Division_Fault"
  by code_simp

lemma one_shot_events:
  "run_events (\<lambda>n. n) one_shot_graph 0 =
     [Set_Value 0 INF_val, Set_Value 1 INF_val, Set_Value 2 INF_val, Set_Value 0 0,
      Mark_Visited 0 0, Set_Value 1 7, Mark_Visited 1 7]"
  by code_simp

text \<open>
  C10. After \<open>dijkstra_timetable\<close> has returned, a node holds the sentinel exactly when
  it is not marked visited: a visited node holds a value below the sentinel, an unvisited
  node still holds the sentinel.
\<close>

theorem sentinel_iff_not_visited:
  assumes "dijkstra_timetable addr gr s = Inr g'" and "p < length (nodes gr)"
  shows "length (nodes g') = length (nodes gr)
     \<and> (node_value (nodes g' ! p) = INF_val \<longleftrightarrow> \<not> visited (nodes g' ! p))
     \<and> (visited (nodes g' ! p) \<longrightarrow> node_value (nodes g' ! p) < INF_val)
     \<and> (\<not> visited (nodes g' ! p) \<longrightarrow> node_value (nodes g' ! p) = INF_val)"
proof -
  from assms(1) obtain st where st: "dijkstra_search addr gr s = Inr st"
    "nodes g' = s_nodes st"
    by (rule dijkstra_timetable_Inr)
  from dijkstra_search_length [OF st(1)] assms(2) have p: "p < length (s_nodes st)" by simp
  from final_unvisited_value [OF st(1) p] final_visited_value [OF st(1) p]
    dijkstra_search_length [OF st(1)] st(2)
  show ?thesis by auto
qed

theorem sentinel_iff_not_visited_witness:
  "dijkstra_timetable (\<lambda>n. n) scenario_graph 0 = Inr scenario_result
   \<and> visited (nodes scenario_result ! 2) \<and> node_value (nodes scenario_result ! 2) < INF_val
   \<and> \<not> visited (nodes scenario_result ! 3) \<and> node_value (nodes scenario_result ! 3) = INF_val"
proof -
  have l2: "2 < length (nodes scenario_graph)" and l3: "3 < length (nodes scenario_graph)"
    by (simp_all add: scenario_graph_def)
  have v2: "visited (nodes scenario_result ! 2)" and v3: "\<not> visited (nodes scenario_result ! 3)"
    by (simp_all add: scenario_result_def scenario_final_def)
  from sentinel_iff_not_visited [OF scenario_run l2] sentinel_iff_not_visited [OF scenario_run l3]
    v2 v3 scenario_run
  show ?thesis by blast
qed

text \<open>
  C6. In every run of the search, whether it returns or stops on a fault: once a node has
  been marked visited, no later call of \<open>set_value\<close> in the run targets that node, and
  the value the node held when it was marked is the value it holds in the last state of
  the run, hence in the graph that \<open>dijkstra_timetable\<close> returns.
\<close>

theorem value_fixed_once_visited:
  assumes "i < length (run_events addr gr s)"
    and "run_events addr gr s ! i = Mark_Visited p v"
  shows "(\<forall>j w. i < j \<and> j < length (run_events addr gr s) \<longrightarrow>
            run_events addr gr s ! j \<noteq> Set_Value p w)
     \<and> visited (s_nodes (last_state (dijkstra_search addr gr s)) ! p)
     \<and> node_value (s_nodes (last_state (dijkstra_search addr gr s)) ! p) = v
     \<and> (\<forall>g'. dijkstra_timetable addr gr s = Inr g' \<longrightarrow>
            visited (nodes g' ! p) \<and> node_value (nodes g' ! p) = v)"
proof -
  let ?st = "last_state (dijkstra_search addr gr s)"
  have ev: "inv_events ?st" by (rule last_state_inv_events)
  have e: "events ?st = run_events addr gr s" by (simp add: run_events_def)
  from assms have "Mark_Visited p v \<in> set (events ?st)" unfolding e by (metis nth_mem)
  with ev have f: "visited (s_nodes ?st ! p)" "node_value (s_nodes ?st ! p) = v"
    by (auto simp: inv_events_def)
  from ev assms(2) have n: "\<forall>j w. i < j \<and> j < length (run_events addr gr s) \<longrightarrow>
      run_events addr gr s ! j \<noteq> Set_Value p w"
    unfolding inv_events_def e by blast
  have "visited (nodes g' ! p) \<and> node_value (nodes g' ! p) = v"
    if "dijkstra_timetable addr gr s = Inr g'" for g'
  proof -
    from that obtain st where st: "dijkstra_search addr gr s = Inr st" "nodes g' = s_nodes st"
      by (rule dijkstra_timetable_Inr)
    with f show ?thesis by (simp add: last_state_def)
  qed
  with f n show ?thesis by blast
qed

theorem value_fixed_once_visited_witness:
  "run_events (\<lambda>n. n) scenario_graph 0 ! 7 = Mark_Visited 1 7
   \<and> run_events (\<lambda>n. n) scenario_graph 0 ! 8 \<noteq> Set_Value 1 11
   \<and> dijkstra_timetable (\<lambda>n. n) scenario_graph 0 = Inr scenario_result
   \<and> node_value (nodes scenario_result ! 1) = 7
   \<and> dijkstra_timetable (\<lambda>n. n) one_shot_graph 0 = Inl Division_Fault
   \<and> run_events (\<lambda>n. n) one_shot_graph 0 ! 4 = Mark_Visited 0 0
   \<and> run_events (\<lambda>n. n) one_shot_graph 0 ! 5 \<noteq> Set_Value 0 7
   \<and> node_value (s_nodes (last_state (dijkstra_search (\<lambda>n. n) one_shot_graph 0)) ! 0) = 0"
proof -
  have i: "7 < length (run_events (\<lambda>n. n) scenario_graph 0)"
    and j: "(7::nat) < 8 \<and> 8 < length (run_events (\<lambda>n. n) scenario_graph 0)"
    and e: "run_events (\<lambda>n. n) scenario_graph 0 ! 7 = Mark_Visited 1 7"
    by (simp_all add: scenario_events scenario_final_def)
  have i': "4 < length (run_events (\<lambda>n. n) one_shot_graph 0)"
    and j': "(4::nat) < 5 \<and> 5 < length (run_events (\<lambda>n. n) one_shot_graph 0)"
    and e': "run_events (\<lambda>n. n) one_shot_graph 0 ! 4 = Mark_Visited 0 0"
    by (simp_all add: one_shot_events)
  note a = value_fixed_once_visited [OF i e]
  note b = value_fixed_once_visited [OF i' e']
  from a j have "run_events (\<lambda>n. n) scenario_graph 0 ! 8 \<noteq> Set_Value 1 11" by blast
  moreover from a scenario_run have "node_value (nodes scenario_result ! 1) = 7" by blast
  moreover from b j' have "run_events (\<lambda>n. n) one_shot_graph 0 ! 5 \<noteq> Set_Value 0 7" by blast
  moreover from b
  have "node_value (s_nodes (last_state (dijkstra_search (\<lambda>n. n) one_shot_graph 0)) ! 0) = 0"
    by blast
  ultimately show ?thesis using e e' scenario_run one_shot_stops by blast
qed

text \<open>
  C7. After a completed search, \<open>Graph::get_path\<close> returns the empty sequence for an
  index outside the graph and for a node that was not reached (it is not visited and has
  no predecessor). For a visited node it returns the nodes from the source to the target:
  each node is the predecessor of the next, joined to it by an edge whose travel
  time from the value of the one is the value of the other. For the source it returns the
  source alone.
\<close>

theorem get_path_after_search:
  assumes "dijkstra_timetable addr gr s = Inr g'"
    and "- 2147483648 \<le> t" "t \<le> 2147483647" and "length (nodes gr) \<le> 2147483647"
  shows "(\<not> (0 \<le> t \<and> t < int (length (nodes g'))) \<longrightarrow> get_path g' t = Some (Inr []))
     \<and> (0 \<le> t \<and> t < int (length (nodes g')) \<and> \<not> visited (nodes g' ! nat t) \<longrightarrow>
          prev_node (nodes g' ! nat t) = None \<and> get_path g' t = Some (Inr []))
     \<and> (0 \<le> t \<and> t < int (length (nodes g')) \<and> visited (nodes g' ! nat t) \<longrightarrow>
          (\<exists>path. get_path g' t = Some (Inr path) \<and> path \<noteq> [] \<and>
             hd path = nat s \<and> last path = nat t \<and>
             (\<forall>i. Suc i < length path \<longrightarrow>
                prev_node (nodes g' ! (path ! Suc i)) = Some (path ! i) \<and>
                (\<exists>e \<in> set (edges (nodes g' ! (path ! i))).
                   connection_node e = path ! Suc i \<and>
                   get_travel_time e (node_value (nodes g' ! (path ! i))) =
                     Inr (node_value (nodes g' ! (path ! Suc i)))))))
     \<and> get_path g' s = Some (Inr [nat s])"
proof -
  from assms(1) obtain st where st: "dijkstra_search addr gr s = Inr st"
    "nodes g' = s_nodes st" "start_index g' = s"
    by (rule dijkstra_timetable_Inr)
  let ?ns = "s_nodes st"
  note s = dijkstra_search_Inr [OF st(1)]
  note len = dijkstra_search_length [OF st(1)]
  from dijkstra_search_inv_tree(1) [OF st(1)] have ip: "inv_prev (nat s) st"
    by (simp add: inv_tree_def)
  note d = inv_prevD [OF ip]
  have sv: "visited (?ns ! nat s)" using st(1) by (rule dijkstra_search_source_visited)
  have inside: "get_path g' x =
     map_option (map_sum id rev)
       (follow_prev ?ns (prev_node (?ns ! nat x)) (if visited (?ns ! nat x) then [nat x] else []))"
    if "0 \<le> x" "x < int (length ?ns)" for x
  proof -
    from that len assms(4) have "x \<le> 2147483647" by simp
    with that s st(2,3) len show ?thesis
      using get_path_inside [of x g'] by simp
  qed
  have a: "get_path g' t = Some (Inr [])" if "\<not> (0 \<le> t \<and> t < int (length (nodes g')))"
    using that assms(2,3,4) st(2) len by (intro get_path_outside) simp_all
  have b: "prev_node (nodes g' ! nat t) = None \<and> get_path g' t = Some (Inr [])"
    if "0 \<le> t" "t < int (length (nodes g'))" "\<not> visited (nodes g' ! nat t)"
  proof -
    from that st(2) have t: "nat t < length ?ns" "\<not> visited (?ns ! nat t)" by simp_all
    from final_unvisited_value [OF st(1) this] have "node_value (?ns ! nat t) = INF_val" .
    with d(6) [OF t(1)] have pn: "prev_node (?ns ! nat t) = None"
      by (cases "prev_node (?ns ! nat t)") auto
    have "follow_prev ?ns None [] = Some (Inr [])"
      by (subst follow_prev.simps) simp
    with pn t that st(2) inside [of t] show ?thesis by simp
  qed
  have c: "\<exists>path. get_path g' t = Some (Inr path) \<and> path \<noteq> [] \<and>
             hd path = nat s \<and> last path = nat t \<and>
             (\<forall>i. Suc i < length path \<longrightarrow>
                prev_node (nodes g' ! (path ! Suc i)) = Some (path ! i) \<and>
                (\<exists>e \<in> set (edges (nodes g' ! (path ! i))).
                   connection_node e = path ! Suc i \<and>
                   get_travel_time e (node_value (nodes g' ! (path ! i))) =
                     Inr (node_value (nodes g' ! (path ! Suc i)))))"
    if "0 \<le> t" "t < int (length (nodes g'))" "visited (nodes g' ! nat t)"
  proof -
    from that st(2) have t: "nat t < length ?ns" "visited (?ns ! nat t)" by simp_all
    from d(7) [OF t] obtain path where ch: "prev_chain ?ns (nat t) path"
      and vis: "\<forall>x \<in> set path. x < length ?ns \<and> visited (?ns ! x)"
      by blast
    note pr = prev_chain_props [OF ch]
    from follow_prev_from_chain [OF ch] t that st(2) inside [of t]
    have g: "get_path g' t = Some (Inr path)" by simp
    from pr(1) vis have hv: "hd path < length ?ns" "visited (?ns ! hd path)" by simp_all
    from final_visited_value [OF st(1) hv] d(5) [OF hv(1) pr(4)] have hd: "hd path = nat s"
      by simp
    have links: "prev_node (?ns ! (path ! Suc i)) = Some (path ! i) \<and>
        (\<exists>e \<in> set (edges (?ns ! (path ! i))). connection_node e = path ! Suc i \<and>
           get_travel_time e (node_value (?ns ! (path ! i))) = Inr (node_value (?ns ! (path ! Suc i))))"
      if "Suc i < length path" for i
    proof -
      from that pr(5) have p: "prev_node (?ns ! (path ! Suc i)) = Some (path ! i)" by simp
      from that vis have "path ! Suc i < length ?ns" by (metis nth_mem)
      from d(6) [OF this p] p show ?thesis by simp
    qed
    from g pr(1,2) hd links st(2) show ?thesis by auto
  qed
  have e: "get_path g' s = Some (Inr [nat s])"
  proof -
    have "follow_prev ?ns None [nat s] = Some (Inr [nat s])"
      by (subst follow_prev.simps) simp
    with inside [of s] s(1,2) len sv d(4) show ?thesis by simp
  qed
  from a b c e show ?thesis by blast
qed

theorem get_path_after_search_witness:
  "dijkstra_timetable (\<lambda>n. n) scenario_graph 0 = Inr scenario_result
   \<and> get_path scenario_result 7 = Some (Inr [])
   \<and> get_path scenario_result 3 = Some (Inr [])
   \<and> (\<exists>path. get_path scenario_result 2 = Some (Inr path) \<and> hd path = 0 \<and> last path = 2)
   \<and> get_path scenario_result 0 = Some (Inr [0])"
proof -
  have l: "length (nodes scenario_graph) \<le> 2147483647"
    by (simp add: scenario_graph_def)
  have f: "length (nodes scenario_result) = 4" "\<not> visited (nodes scenario_result ! 3)"
    "visited (nodes scenario_result ! 2)"
    by (simp_all add: scenario_result_def scenario_final_def)
  have a: "get_path scenario_result 7 = Some (Inr [])"
    using get_path_after_search [OF scenario_run _ _ l, of 7] f(1) by simp
  have b: "get_path scenario_result 3 = Some (Inr [])"
    using get_path_after_search [OF scenario_run _ _ l, of 3] f(1,2) by simp
  have "\<exists>path. get_path scenario_result 2 = Some (Inr path) \<and> path \<noteq> [] \<and>
      hd path = nat 0 \<and> last path = nat 2 \<and>
             (\<forall>i. Suc i < length path \<longrightarrow>
                prev_node (nodes scenario_result ! (path ! Suc i)) = Some (path ! i) \<and>
                (\<exists>e \<in> set (edges (nodes scenario_result ! (path ! i))).
                   connection_node e = path ! Suc i \<and>
                   get_travel_time e (node_value (nodes scenario_result ! (path ! i))) =
                     Inr (node_value (nodes scenario_result ! (path ! Suc i)))))"
    using get_path_after_search [OF scenario_run _ _ l, of 2] f(1,3) by simp
  then have c: "\<exists>path. get_path scenario_result 2 = Some (Inr path) \<and> hd path = 0 \<and> last path = 2"
    by auto
  have d: "get_path scenario_result 0 = Some (Inr [0])"
    using get_path_after_search [OF scenario_run _ _ l, of 0] by simp
  from a b c d scenario_run show ?thesis by simp
qed

section \<open>Arithmetic of the schedule within the 32-bit range\<close>

lemma get_travel_time_Inr_no_fault:
  assumes "get_travel_time e t = Inr r"
  shows "\<not> (departure_time e = 0 \<and> t = start_time e)"
  using assms by (auto simp: get_travel_time_def wait_time_def rem32_def)

lemma get_travel_time_fault_iff:
  assumes "0 \<le> departure_time e"
  shows "(\<exists>f. get_travel_time e t = Inl f) \<longleftrightarrow> departure_time e = 0 \<and> t = start_time e"
  using assms by (auto simp: get_travel_time_def wait_time_def rem32_def)

lemma edge_schedule_bounds:
  assumes "0 \<le> start_time e" "0 \<le> departure_time e" "0 \<le> traverse_time e"
    and "0 \<le> t" "edge_schedule e t = Some a"
  shows "t \<le> a" and "a \<le> t + (start_time e + departure_time e + traverse_time e)"
proof -
  from assms(5) have ns: "\<not> (departure_time e = 0 \<and> start_time e < t)"
    using edge_schedule_None [of e t] by auto
  define w where "w = (if t \<le> start_time e then start_time e - t
            else if (t - start_time e) mod departure_time e = 0 then 0
            else departure_time e - (t - start_time e) mod departure_time e)"
  from edge_schedule_eq [OF ns] assms(5) have a: "a = t + traverse_time e + w"
    by (simp add: w_def)
  have "0 \<le> w \<and> w \<le> start_time e + departure_time e"
  proof (cases "t \<le> start_time e")
    case True
    with assms(2,4) show ?thesis by (simp add: w_def)
  next
    case False
    with ns assms(2) have p: "0 < departure_time e" by auto
    then have "0 \<le> (t - start_time e) mod departure_time e"
      "(t - start_time e) mod departure_time e < departure_time e"
      by simp_all
    with False assms(1) p show ?thesis by (simp add: w_def)
  qed
  with a assms(3) show "t \<le> a" and "a \<le> t + (start_time e + departure_time e + traverse_time e)"
    by simp_all
qed

lemma relax_value:
  assumes "0 \<le> start_time e" "0 \<le> departure_time e" "0 \<le> traverse_time e"
    and "start_time e + departure_time e + traverse_time e \<le> M"
    and "0 \<le> t" "t + M \<le> INF_val" "get_travel_time e t = Inr r"
  shows "(edge_schedule e t = None \<and> r = INF_val) \<or>
         (edge_schedule e t = Some r \<and> t \<le> r \<and> r \<le> t + M)"
proof (cases "edge_schedule e t")
  case None
  then have "departure_time e = 0 \<and> start_time e < t" by (simp add: edge_schedule_None)
  with assms(7) have "r = INF_val" by (simp add: get_travel_time_def)
  with None show ?thesis by simp
next
  case (Some a)
  from edge_schedule_bounds [OF assms(1-3,5) Some] assms(4)
  have b: "t \<le> a" "a \<le> t + M" by simp_all
  with assms(6) have "a \<le> INF_val" by simp
  with assms(1-3,5) get_travel_time_Inr_no_fault [OF assms(7)] Some
  have "get_travel_time e t = Inr a" by (intro get_travel_time_exact(1)) simp_all
  with assms(7) Some b show ?thesis by simp
qed

lemma next_departure_least:
  fixes p :: int
  assumes "0 < p" "0 < y" "y \<le> E" "p dvd E" "y mod p \<noteq> 0"
  shows "y + p - y mod p \<le> E"
proof (rule ccontr)
  assume "\<not> y + p - y mod p \<le> E"
  then have lt: "E < y + p - y mod p" by simp
  have y: "y = (y div p) * p + y mod p" by simp
  from assms(4) have E: "E = (E div p) * p" by simp
  have "(y div p + 1) * p = (y div p) * p + p" by (simp add: algebra_simps)
  with lt y have "E < (y div p + 1) * p" by linarith
  with E have "(E div p) * p < (y div p + 1) * p" by simp
  with assms(1) have "E div p < y div p + 1" by (simp add: mult_less_cancel_right)
  then have "E div p \<le> y div p" by simp
  with assms(1) have "(E div p) * p \<le> (y div p) * p" by (simp add: mult_right_mono)
  with E have "E \<le> (y div p) * p" by simp
  moreover from assms(1) have "0 \<le> y mod p" by simp
  ultimately have "E \<le> y - y mod p" using y by linarith
  with assms(3) have "y mod p \<le> 0" by simp
  moreover from assms(1) have "0 \<le> y mod p" by simp
  ultimately have "y mod p = 0" by (rule antisym)
  with assms(5) show False by simp
qed

lemma edge_schedule_mono:
  assumes "0 \<le> start_time e" "0 \<le> departure_time e"
    and "t \<le> t'" "edge_schedule e t' = Some a'"
  shows "\<exists>a. edge_schedule e t = Some a \<and> a \<le> a'"
proof -
  let ?s = "start_time e" and ?p = "departure_time e"
  from assms(4) have ns': "\<not> (?p = 0 \<and> ?s < t')"
    using edge_schedule_None [of e t'] by auto
  with assms(3) have ns: "\<not> (?p = 0 \<and> ?s < t)" by auto
  define dep where "dep x = (if x \<le> ?s then ?s
            else if (x - ?s) mod ?p = 0 then x else x + ?p - (x - ?s) mod ?p)" for x
  have sched: "edge_schedule e x = Some (dep x + traverse_time e)" if "\<not> (?p = 0 \<and> ?s < x)" for x
    using edge_schedule_eq [OF that] by (simp add: dep_def)
  have "dep t \<le> dep t'"
  proof (cases "t \<le> ?s")
    case True
    then have "dep t = ?s" by (simp add: dep_def)
    moreover have "?s \<le> dep t'"
    proof (cases "t' \<le> ?s")
      case True
      then show ?thesis by (simp add: dep_def)
    next
      case False
      with ns' assms(2) have "0 < ?p" by auto
      then have "(t' - ?s) mod ?p < ?p" by simp
      with False show ?thesis by (simp add: dep_def)
    qed
    ultimately show ?thesis by simp
  next
    case False
    with assms(3) have f': "\<not> t' \<le> ?s" by simp
    from False ns assms(2) have p: "0 < ?p" by auto
    have ge: "t' \<le> dep t'"
    proof -
      from p have "(t' - ?s) mod ?p < ?p" by simp
      with f' show ?thesis by (simp add: dep_def)
    qed
    have dv: "?p dvd dep t' - ?s"
    proof (cases "(t' - ?s) mod ?p = 0")
      case True
      with f' show ?thesis by (simp add: dep_def dvd_eq_mod_eq_0)
    next
      case False
      have "dep t' - ?s = (t' - ?s) - (t' - ?s) mod ?p + ?p"
        using f' False by (simp add: dep_def)
      also have "(t' - ?s) - (t' - ?s) mod ?p = ((t' - ?s) div ?p) * ?p"
        by (simp add: minus_mod_eq_div_mult)
      finally show ?thesis by simp
    qed
    show ?thesis
    proof (cases "(t - ?s) mod ?p = 0")
      case True
      with False have "dep t = t" by (simp add: dep_def)
      with ge assms(3) show ?thesis by simp
    next
      case nz: False
      from False have "0 < t - ?s" by simp
      moreover from ge assms(3) have "t - ?s \<le> dep t' - ?s" by simp
      ultimately have "(t - ?s) + ?p - (t - ?s) mod ?p \<le> dep t' - ?s"
        using p dv nz by (intro next_departure_least) simp_all
      with False nz show ?thesis by (simp add: dep_def)
    qed
  qed
  with sched [OF ns] sched [OF ns'] assms(4) show ?thesis by simp
qed

section \<open>Values within bounds\<close>

lemma same_graph_start: "same_graph (nodes gr) (start_state gr p)"
  by (simp add: same_graph_def)

lemma same_graph_relax_edge:
  assumes "same_graph ns st" "relax_edge u e st = Inr st'"
  shows "same_graph ns st'"
  using assms(2) by (cases rule: relax_edge_cases) (use assms(1) in \<open>simp_all add: same_graph_def\<close>)

lemma same_graph_marked: "same_graph ns st \<Longrightarrow> same_graph ns (marked st c)"
  by (simp add: same_graph_def)

lemma visited_count_le: "visited_count ns \<le> length ns"
proof -
  have "card {p. p < length ns \<and> visited (ns ! p)} \<le> card {..<length ns}"
    by (intro card_mono) auto
  then show ?thesis by (simp add: visited_count_def)
qed

lemma visited_count_cong:
  assumes "length ns' = length ns" "\<And>p. p < length ns \<Longrightarrow> visited (ns' ! p) = visited (ns ! p)"
  shows "visited_count ns' = visited_count ns"
proof -
  have "{p. p < length ns' \<and> visited (ns' ! p)} = {p. p < length ns \<and> visited (ns ! p)}"
    using assms by auto
  then show ?thesis by (simp add: visited_count_def)
qed

lemma visited_count_marked:
  assumes "snd c < length (s_nodes st)" "\<not> visited (s_nodes st ! snd c)"
  shows "visited_count (s_nodes (marked st c)) = Suc (visited_count (s_nodes st))"
proof -
  let ?A = "{p. p < length (s_nodes st) \<and> visited (s_nodes st ! p)}"
  have "{p. p < length (s_nodes (marked st c)) \<and> visited (s_nodes (marked st c) ! p)} = insert (snd c) ?A"
    using assms(1) by auto
  moreover have "finite ?A" by simp
  moreover have "snd c \<notin> ?A" using assms(2) by simp
  ultimately show ?thesis by (simp add: visited_count_def)
qed

lemma visited_count_relax_edge:
  assumes "relax_edge u e st = Inr st'"
  shows "visited_count (s_nodes st') = visited_count (s_nodes st)"
  using relax_edge_visited [OF assms] by (intro visited_count_cong) simp_all

lemma bounded_schedule_edge:
  assumes "bounded_schedule M ns" "same_graph ns st" "u < length (s_nodes st)"
    "e \<in> set (edges (s_nodes st ! u))"
  shows "0 \<le> start_time e" "0 \<le> departure_time e" "0 \<le> traverse_time e"
    "start_time e + departure_time e + traverse_time e \<le> M"
proof -
  from assms(2,3) have "ns ! u \<in> set ns" "edges (s_nodes st ! u) = edges (ns ! u)"
    by (simp_all add: same_graph_def)
  with assms(1,4) have "0 \<le> start_time e \<and> 0 \<le> departure_time e \<and> 0 \<le> traverse_time e \<and>
        start_time e + departure_time e + traverse_time e \<le> M"
    unfolding bounded_schedule_def by auto
  then show "0 \<le> start_time e" "0 \<le> departure_time e" "0 \<le> traverse_time e"
    "start_time e + departure_time e + traverse_time e \<le> M"
    by simp_all
qed

lemma inv_bound_visited_room:
  assumes "bounded_schedule M ns" "same_graph ns st" "inv_bound M st"
    "u < length (s_nodes st)" "visited (s_nodes st ! u)"
  shows "node_value (s_nodes st ! u) + M < INF_val" and "0 \<le> node_value (s_nodes st ! u)"
proof -
  from assms(3,4,5) have "node_value (s_nodes st ! u) + M \<le> int (visited_count (s_nodes st)) * M"
    by (simp add: inv_bound_def)
  also have "\<dots> \<le> int (length (s_nodes st)) * M"
    using assms(1) visited_count_le [of "s_nodes st"]
    by (intro mult_right_mono) (simp_all add: bounded_schedule_def)
  also have "\<dots> < INF_val"
    using assms(1,2) by (simp add: bounded_schedule_def same_graph_def)
  finally show "node_value (s_nodes st ! u) + M < INF_val" .
  from assms(3,4) show "0 \<le> node_value (s_nodes st ! u)" by (simp add: inv_bound_def)
qed

lemma relax_edge_value:
  assumes "bounded_schedule M ns" "same_graph ns st" "inv_bound M st"
    and "u < length (s_nodes st)" "visited (s_nodes st ! u)" "e \<in> set (edges (s_nodes st ! u))"
    and "get_travel_time e (node_value (s_nodes st ! u)) = Inr t"
  shows "(edge_schedule e (node_value (s_nodes st ! u)) = None \<and> t = INF_val) \<or>
         (edge_schedule e (node_value (s_nodes st ! u)) = Some t \<and>
            node_value (s_nodes st ! u) \<le> t \<and> t \<le> node_value (s_nodes st ! u) + M)"
proof -
  note b = bounded_schedule_edge [OF assms(1,2,4,6)]
  note r = inv_bound_visited_room [OF assms(1,2,3,4,5)]
  from r(1) have "node_value (s_nodes st ! u) + M \<le> INF_val" by simp
  with b r(2) assms(7) show ?thesis by (intro relax_value) simp_all
qed

lemma inv_bound_start:
  assumes "0 \<le> M" "p < length (nodes gr)"
  shows "inv_bound M (start_state gr p)"
  using assms by (auto simp: inv_bound_def INF_val_def)

lemma inv_bound_relax_edge:
  assumes "bounded_schedule M ns" "same_graph ns st" "inv_bound M st"
    and "u < length (s_nodes st)" "visited (s_nodes st ! u)" "e \<in> set (edges (s_nodes st ! u))"
    and "relax_edge u e st = Inr st'"
  shows "inv_bound M st'"
  using assms(7)
proof (cases rule: relax_edge_cases)
  case skip
  with assms(3) show ?thesis by simp
next
  case (keep t)
  with assms(3) show ?thesis by simp
next
  case (improve t)
  let ?v = "connection_node e"
  note vc = visited_count_relax_edge [OF assms(7)]
  from improve(2) assms(5) have ne: "?v \<noteq> u" by auto
  from assms(3,4,5) have ub: "node_value (s_nodes st ! u) + M \<le> int (visited_count (s_nodes st)) * M"
    "0 \<le> node_value (s_nodes st ! u)"
    by (simp_all add: inv_bound_def)
  from relax_edge_value [OF assms(1-6) improve(3)] ub
  have t: "0 \<le> t" "t \<noteq> INF_val \<longrightarrow> t \<le> int (visited_count (s_nodes st)) * M"
    by (auto simp: INF_val_def)
  show ?thesis
    unfolding inv_bound_def
  proof (intro conjI allI impI)
    fix p
    assume "p < length (s_nodes st')"
    with improve assms(3) t show "0 \<le> node_value (s_nodes st' ! p)"
      by (cases "p = ?v") (simp_all add: inv_bound_def)
  next
    fix p
    assume "p < length (s_nodes st')" "node_value (s_nodes st' ! p) \<noteq> INF_val"
    with improve assms(3) t vc show "node_value (s_nodes st' ! p) \<le> int (visited_count (s_nodes st')) * M"
      by (cases "p = ?v") (simp_all add: inv_bound_def)
  next
    fix p
    assume "p < length (s_nodes st')" "visited (s_nodes st' ! p)"
    with improve assms(3) vc show "node_value (s_nodes st' ! p) + M \<le> int (visited_count (s_nodes st')) * M"
      by (cases "p = ?v") (simp_all add: inv_bound_def)
  qed
qed

lemma inv_bound_marked:
  assumes "inv_bound M st" "0 \<le> M" "snd c < length (s_nodes st)"
    "\<not> visited (s_nodes st ! snd c)" "node_value (s_nodes st ! snd c) \<noteq> INF_val"
  shows "inv_bound M (marked st c)"
proof -
  note vc = visited_count_marked [OF assms(3,4)]
  have grow: "int (visited_count (s_nodes st)) * M + M = int (visited_count (s_nodes (marked st c))) * M"
    by (simp add: vc algebra_simps)
  show ?thesis
    unfolding inv_bound_def
  proof (intro conjI allI impI)
    fix p
    assume "p < length (s_nodes (marked st c))"
    with assms(1) show "0 \<le> node_value (s_nodes (marked st c) ! p)"
      by (simp add: inv_bound_def)
  next
    fix p
    assume "p < length (s_nodes (marked st c))" "node_value (s_nodes (marked st c) ! p) \<noteq> INF_val"
    with assms(1) have "node_value (s_nodes st ! p) \<le> int (visited_count (s_nodes st)) * M"
      by (simp add: inv_bound_def)
    with assms(2) grow show "node_value (s_nodes (marked st c) ! p)
        \<le> int (visited_count (s_nodes (marked st c))) * M"
      by simp
  next
    fix p
    assume p: "p < length (s_nodes (marked st c))" "visited (s_nodes (marked st c) ! p)"
    show "node_value (s_nodes (marked st c) ! p) + M \<le> int (visited_count (s_nodes (marked st c))) * M"
    proof (cases "p = snd c")
      case True
      with assms(1,3,5) have "node_value (s_nodes st ! p) \<le> int (visited_count (s_nodes st)) * M"
        by (simp add: inv_bound_def)
      with grow show ?thesis by simp
    next
      case False
      with p assms(1,3) have "node_value (s_nodes st ! p) + M \<le> int (visited_count (s_nodes st)) * M"
        by (simp add: inv_bound_def)
      with assms(2) grow show ?thesis by simp
    qed
  qed
qed

section \<open>Arrival times along paths\<close>

lemma path_arrival_snoc:
  "path_arrival ns u (es @ [e]) t =
     (case path_arrival ns u es t of
        None \<Rightarrow> None
      | Some (w, b) \<Rightarrow>
          if w < length ns \<and> e \<in> set (edges (ns ! w)) then
            (case edge_schedule e b of None \<Rightarrow> None | Some a \<Rightarrow> Some (connection_node e, a))
          else None)"
  by (induction es arbitrary: u t) (auto split: option.splits)

section \<open>Earliest arrival: the invariant\<close>

lemma inv_coreD:
  assumes "inv_core ns s st"
  shows "node_value (s_nodes st ! s) = 0"
    and "\<And>w k p. w < length (s_nodes st) \<Longrightarrow> visited (s_nodes st ! w) \<Longrightarrow>
           (k, p) \<in> set (prio_queue st) \<Longrightarrow> node_value (s_nodes st ! w) \<le> k"
    and "\<And>p. p < length (s_nodes st) \<Longrightarrow> node_value (s_nodes st ! p) < INF_val \<Longrightarrow>
           \<exists>path. path_arrival ns s path 0 = Some (p, node_value (s_nodes st ! p))"
    and "\<And>i j p v q w. i < j \<Longrightarrow> j < length (events st) \<Longrightarrow>
           events st ! i = Mark_Visited p v \<Longrightarrow> events st ! j = Mark_Visited q w \<Longrightarrow> v \<le> w"
proof -
  from assms show "node_value (s_nodes st ! s) = 0" by (simp add: inv_core_def)
  from assms show "node_value (s_nodes st ! w) \<le> k"
    if "w < length (s_nodes st)" "visited (s_nodes st ! w)" "(k, p) \<in> set (prio_queue st)" for w k p
    using that unfolding inv_core_def by blast
  from assms show "\<exists>path. path_arrival ns s path 0 = Some (p, node_value (s_nodes st ! p))"
    if "p < length (s_nodes st)" "node_value (s_nodes st ! p) < INF_val" for p
    using that unfolding inv_core_def by blast
  from assms show "v \<le> w"
    if "i < j" "j < length (events st)" "events st ! i = Mark_Visited p v"
      "events st ! j = Mark_Visited q w" for i j p v q w
    using that unfolding inv_core_def by blast
qed

lemma inv_coreI:
  assumes "node_value (s_nodes st ! s) = 0"
    and "\<And>w k p. w < length (s_nodes st) \<Longrightarrow> visited (s_nodes st ! w) \<Longrightarrow>
           (k, p) \<in> set (prio_queue st) \<Longrightarrow> node_value (s_nodes st ! w) \<le> k"
    and "\<And>p. p < length (s_nodes st) \<Longrightarrow> node_value (s_nodes st ! p) < INF_val \<Longrightarrow>
           \<exists>path. path_arrival ns s path 0 = Some (p, node_value (s_nodes st ! p))"
    and "\<And>i j p v q w. i < j \<Longrightarrow> j < length (events st) \<Longrightarrow>
           events st ! i = Mark_Visited p v \<Longrightarrow> events st ! j = Mark_Visited q w \<Longrightarrow> v \<le> w"
  shows "inv_core ns s st"
  unfolding inv_core_def
proof (intro conjI)
  show "node_value (s_nodes st ! s) = 0" by fact
  show "\<forall>w < length (s_nodes st). visited (s_nodes st ! w) \<longrightarrow>
        (\<forall>k p. (k, p) \<in> set (prio_queue st) \<longrightarrow> node_value (s_nodes st ! w) \<le> k)"
    using assms(2) by (intro allI impI)
  show "\<forall>p < length (s_nodes st). node_value (s_nodes st ! p) < INF_val \<longrightarrow>
        (\<exists>path. path_arrival ns s path 0 = Some (p, node_value (s_nodes st ! p)))"
    using assms(3) by (intro allI impI)
  show "\<forall>i j p v q w. i < j \<longrightarrow> j < length (events st) \<longrightarrow>
        events st ! i = Mark_Visited p v \<longrightarrow> events st ! j = Mark_Visited q w \<longrightarrow> v \<le> w"
    using assms(4) by (intro allI impI)
qed

lemma relaxed_append: "relaxed st w (ds @ [e]) \<longleftrightarrow> relaxed st w ds \<and> relaxed st w [e]"
  by (auto simp: relaxed_def)

lemma relaxed_decrease:
  assumes "relaxed st w es" "length (s_nodes st') = length (s_nodes st)"
    and "node_value (s_nodes st' ! w) = node_value (s_nodes st ! w)"
    and "\<And>p. p < length (s_nodes st) \<Longrightarrow> node_value (s_nodes st' ! p) \<le> node_value (s_nodes st ! p)"
  shows "relaxed st' w es"
  unfolding relaxed_def
proof (intro ballI allI impI)
  fix e a
  assume "e \<in> set es" "edge_schedule e (node_value (s_nodes st' ! w)) = Some a"
  with assms(1,3) have h: "connection_node e < length (s_nodes st)"
    "node_value (s_nodes st ! connection_node e) \<le> a"
    by (auto simp: relaxed_def)
  from assms(4) [OF h(1)] h(2) have "node_value (s_nodes st' ! connection_node e) \<le> a" by simp
  with h(1) assms(2) show "connection_node e < length (s_nodes st') \<and>
      node_value (s_nodes st' ! connection_node e) \<le> a"
    by simp
qed

lemma inv_core_start:
  assumes "s < length (nodes gr)"
  shows "inv_core (nodes gr) s (start_state gr s)"
proof (rule inv_coreI)
  show "node_value (s_nodes (start_state gr s) ! s) = 0" using assms by simp
next
  fix p
  assume "p < length (s_nodes (start_state gr s))" "node_value (s_nodes (start_state gr s) ! p) < INF_val"
  with assms have "p = s" "node_value (s_nodes (start_state gr s) ! p) = 0"
    by (auto split: if_splits)
  moreover have "path_arrival (nodes gr) s [] 0 = Some (s, 0)" by simp
  ultimately show "\<exists>path. path_arrival (nodes gr) s path 0 =
      Some (p, node_value (s_nodes (start_state gr s) ! p))"
    by metis
next
  fix i j p v q w
  assume "i < j" "j < length (events (start_state gr s))"
    "events (start_state gr s) ! i = Mark_Visited p v"
  then have "Mark_Visited p v \<in> set (events (start_state gr s))"
    by (metis nth_mem less_trans)
  then show "v \<le> w" by auto
qed (use assms in auto)

lemma inv_opt_start:
  assumes "s < length (nodes gr)"
  shows "inv_opt (nodes gr) s (start_state gr s)"
  using assms by (simp add: inv_opt_def inv_core_start)

lemma inv_core_improved:
  assumes "inv_core ns s st" "same_graph ns st"
    and "v < length (s_nodes st)" "\<not> visited (s_nodes st ! v)"
    and "u < length (s_nodes st)" "visited (s_nodes st ! u)"
    and "e \<in> set (edges (ns ! u))" "connection_node e = v"
    and "edge_schedule e (node_value (s_nodes st ! u)) = Some t"
    and "node_value (s_nodes st ! u) \<le> t" "0 \<le> node_value (s_nodes st ! u)"
    and "t < node_value (s_nodes st ! v)" "node_value (s_nodes st ! u) < INF_val"
    and "\<And>w. w < length (s_nodes st) \<Longrightarrow> visited (s_nodes st ! w) \<Longrightarrow>
           node_value (s_nodes st ! w) \<le> node_value (s_nodes st ! u)"
  shows "inv_core ns s (improved st u v t)"
proof (rule inv_coreI)
  note d = inv_coreD [OF assms(1)]
  let ?st' = "improved st u v t"
  from assms(10,11,12) d(1) have "v \<noteq> s" by auto
  with d(1) assms(3) show "node_value (s_nodes ?st' ! s) = 0" by simp
  {
    fix w k p
    assume w: "w < length (s_nodes ?st')" "visited (s_nodes ?st' ! w)"
      and k: "(k, p) \<in> set (prio_queue ?st')"
    from w assms(4) have wv: "w \<noteq> v" "w < length (s_nodes st)" "visited (s_nodes st ! w)"
      by auto
    from k consider "k = t" | "(k, p) \<in> set (prio_queue st)" by auto
    then have "node_value (s_nodes st ! w) \<le> k"
    proof cases
      case 1
      with assms(14) [OF wv(2,3)] assms(10) show ?thesis by simp
    next
      case 2
      with d(2) [OF wv(2,3)] show ?thesis by simp
    qed
    with wv(1) assms(3) show "node_value (s_nodes ?st' ! w) \<le> k" by simp
  }
  {
    fix p
    assume p: "p < length (s_nodes ?st')" "node_value (s_nodes ?st' ! p) < INF_val"
    show "\<exists>path. path_arrival ns s path 0 = Some (p, node_value (s_nodes ?st' ! p))"
    proof (cases "p = v")
      case True
      from d(3) [OF assms(5,13)] obtain path
        where "path_arrival ns s path 0 = Some (u, node_value (s_nodes st ! u))"
        by blast
      moreover from assms(2,5) have "u < length ns" by (simp add: same_graph_def)
      ultimately have "path_arrival ns s (path @ [e]) 0 = Some (v, t)"
        using assms(7,8,9) by (simp add: path_arrival_snoc)
      with True assms(3) show ?thesis by auto
    next
      case False
      with p assms(3) d(3) [of p] show ?thesis by simp
    qed
  }
  {
    fix i j p a q b
    assume ij: "i < j" "j < length (events ?st')"
      and i: "events ?st' ! i = Mark_Visited p a" and j: "events ?st' ! j = Mark_Visited q b"
    from j ij(2) have jl: "j < length (events st)"
      by (cases "j = length (events st)") auto
    with ij i j d(4) [of i j p a q b] show "a \<le> b" by (simp add: nth_append)
  }
qed

lemma inv_relaxing_relax_edge:
  assumes "bounded_schedule M ns" "same_graph ns st" "inv_queue st" "inv_bound M st"
    and "u < length (s_nodes st)" "visited (s_nodes st ! u)" "e \<in> set (edges (ns ! u))"
    and "inv_relaxing ns s u ds st" "relax_edge u e st = Inr st'"
  shows "inv_relaxing ns s u (ds @ [e]) st'"
proof -
  let ?v = "connection_node e"
  let ?tu = "node_value (s_nodes st ! u)"
  from assms(2,5,7) have e: "e \<in> set (edges (s_nodes st ! u))" by (simp add: same_graph_def)
  note b = bounded_schedule_edge [OF assms(1,2,5) e]
  note room = inv_bound_visited_room [OF assms(1,2,4,5,6)]
  from assms(8) have core: "inv_core ns s st"
    and others: "\<And>w. w < length (s_nodes st) \<Longrightarrow> visited (s_nodes st ! w) \<Longrightarrow> w \<noteq> u \<Longrightarrow>
        relaxed st w (edges (ns ! w))"
    and dsr: "relaxed st u ds"
    and top: "\<And>w. w < length (s_nodes st) \<Longrightarrow> visited (s_nodes st ! w) \<Longrightarrow>
        node_value (s_nodes st ! w) \<le> ?tu"
    unfolding inv_relaxing_def by blast+
  from assms(9) show ?thesis
  proof (cases rule: relax_edge_cases)
    case skip
    have "relaxed st u [e]"
      unfolding relaxed_def
    proof (intro ballI allI impI)
      fix e' a
      assume "e' \<in> set [e]" "edge_schedule e' ?tu = Some a"
      then have a: "edge_schedule e ?tu = Some a" and [simp]: "e' = e" by simp_all
      from edge_schedule_bounds(1) [OF b(1,2,3) room(2) a] top [OF skip(1,2)] skip(1)
      show "connection_node e' < length (s_nodes st) \<and> node_value (s_nodes st ! connection_node e') \<le> a"
        by simp
    qed
    with assms(8) skip(3) show ?thesis
      by (simp add: inv_relaxing_def relaxed_append)
  next
    case (keep t)
    note rv = relax_edge_value [OF assms(1,2,4,5,6) e keep(3)]
    have "relaxed st u [e]"
      unfolding relaxed_def
    proof (intro ballI allI impI)
      fix e' a
      assume "e' \<in> set [e]" "edge_schedule e' ?tu = Some a"
      then have a: "edge_schedule e ?tu = Some a" and [simp]: "e' = e" by simp_all
      with rv have "a = t" by auto
      with keep(1,4)
      show "connection_node e' < length (s_nodes st) \<and> node_value (s_nodes st ! connection_node e') \<le> a"
        by simp
    qed
    with assms(8) keep(5) show ?thesis
      by (simp add: inv_relaxing_def relaxed_append)
  next
    case (improve t)
    note rv = relax_edge_value [OF assms(1,2,4,5,6) e improve(3)]
    from assms(3) improve(1) have "node_value (s_nodes st ! ?v) \<le> INF_val"
      by (simp add: inv_queue_def)
    with improve(4) have "t \<noteq> INF_val" by auto
    with rv have sch: "edge_schedule e ?tu = Some t" and le: "?tu \<le> t" by auto
    from improve(2) assms(6) have ne: "?v \<noteq> u" by auto
    from room(1) b(1,2,3) have "?tu < INF_val"
      using assms(1) by (simp add: bounded_schedule_def)
    with core assms(2) improve(1,2) assms(5,6,7) sch le room(2) improve(4) top
    have c': "inv_core ns s (improved st u ?v t)"
      by (intro inv_core_improved [where e = e]) simp_all
    have len: "length (s_nodes st') = length (s_nodes st)" using improve by simp
    have dec: "node_value (s_nodes st' ! p) \<le> node_value (s_nodes st ! p)"
      if "p < length (s_nodes st)" for p
      using improve(1,4,5) by (cases "p = ?v") simp_all
    have same: "node_value (s_nodes st' ! w) = node_value (s_nodes st ! w)"
      if "visited (s_nodes st ! w)" for w
      using that improve(1,2,5) by (cases "w = ?v") auto
    have o': "relaxed st' w (edges (ns ! w))"
      if "w < length (s_nodes st')" "visited (s_nodes st' ! w)" "w \<noteq> u" for w
    proof -
      from that improve(5) have w: "w < length (s_nodes st)" "visited (s_nodes st ! w)" by simp_all
      from others [OF w that(3)] len same [OF w(2)] dec show ?thesis
        by (rule relaxed_decrease)
    qed
    have d': "relaxed st' u ds"
      using dsr len same [OF assms(6)] dec by (rule relaxed_decrease)
    have e': "relaxed st' u [e]"
      using sch same [OF assms(6)] improve(1,5) by (simp add: relaxed_def)
    have t': "node_value (s_nodes st' ! w) \<le> node_value (s_nodes st' ! u)"
      if "w < length (s_nodes st')" "visited (s_nodes st' ! w)" for w
    proof -
      from that improve(5) have w: "w < length (s_nodes st)" "visited (s_nodes st ! w)" by simp_all
      from top [OF w] same [OF w(2)] same [OF assms(6)] show ?thesis by simp
    qed
    from c' o' d' e' t' improve(5) show ?thesis
      unfolding inv_relaxing_def relaxed_append by blast
  qed
qed

lemma inv_relaxing_marked:
  assumes "inv_opt ns s st" "inv_queue st" "inv_events st"
    and "c \<in> set (prio_queue st)" "\<forall>(k, p) \<in> set (prio_queue st). fst c \<le> k"
    and "snd c < length (s_nodes st)" "\<not> visited (s_nodes st ! snd c)"
  shows "inv_relaxing ns s (snd c) [] (marked st c)"
    and "node_value (s_nodes st ! snd c) = fst c"
proof -
  let ?u = "snd c" and ?m = "marked st c"
  from assms(1) have core: "inv_core ns s st" by (simp add: inv_opt_def)
  note d = inv_coreD [OF core]
  from assms(2,4) have c: "node_value (s_nodes st ! ?u) \<le> fst c" "fst c < INF_val"
    by (cases c; auto simp: inv_queue_def)+
  then have "node_value (s_nodes st ! ?u) \<noteq> INF_val" by simp
  with assms(2,6,7) have "(node_value (s_nodes st ! ?u), ?u) \<in> set (prio_queue st)"
    by (simp add: inv_queue_def)
  with assms(5) have "fst c \<le> node_value (s_nodes st ! ?u)" by auto
  with c(1) show val: "node_value (s_nodes st ! ?u) = fst c" by simp
  have least: "fst c \<le> k" if "(k, p) \<in> set (prio_queue st)" for k p
    using assms(5) that by auto
  have old: "node_value (s_nodes st ! w) \<le> fst c"
    if "w < length (s_nodes st)" "visited (s_nodes st ! w)" for w
    using d(2) [OF that, of "fst c" "snd c"] assms(4) by simp
  have c': "inv_core ns s ?m"
  proof (rule inv_coreI)
    show "node_value (s_nodes ?m ! s) = 0" using d(1) by simp
    {
      fix w k p
      assume w: "w < length (s_nodes ?m)" "visited (s_nodes ?m ! w)"
        and k: "(k, p) \<in> set (prio_queue ?m)"
      from k have k': "(k, p) \<in> set (prio_queue st)" by simp
      show "node_value (s_nodes ?m ! w) \<le> k"
      proof (cases "w = ?u")
        case True
        with val least [OF k'] show ?thesis by simp
      next
        case False
        with w assms(6) d(2) [OF _ _ k', of w] show ?thesis by simp
      qed
    }
    {
      fix p
      assume "p < length (s_nodes ?m)" "node_value (s_nodes ?m ! p) < INF_val"
      with d(3) [of p] show "\<exists>path. path_arrival ns s path 0 = Some (p, node_value (s_nodes ?m ! p))"
        by simp
    }
    {
      fix i j p a q b
      assume ij: "i < j" "j < length (events ?m)"
        and i: "events ?m ! i = Mark_Visited p a" and j: "events ?m ! j = Mark_Visited q b"
      show "a \<le> b"
      proof (cases "j < length (events st)")
        case True
        with ij i j d(4) [of i j p a q b] show ?thesis by (simp add: nth_append)
      next
        case False
        with ij(2) have jl: "j = length (events st)" by simp
        with j val have b: "b = fst c" by simp
        from jl ij(1) i have il: "i < length (events st)" "events st ! i = Mark_Visited p a"
          by (simp_all add: nth_append)
        then have "Mark_Visited p a \<in> set (events st)" by (metis nth_mem)
        with assms(3) have "p < length (s_nodes st)" "visited (s_nodes st ! p)"
          "node_value (s_nodes st ! p) = a"
          by (auto simp: inv_events_def)
        with old [of p] b show ?thesis by simp
      qed
    }
  qed
  have o': "relaxed ?m w (edges (ns ! w))"
    if "w < length (s_nodes ?m)" "visited (s_nodes ?m ! w)" "w \<noteq> ?u" for w
  proof -
    from that assms(6) have "w < length (s_nodes st)" "visited (s_nodes st ! w)" by simp_all
    with assms(1) have "relaxed st w (edges (ns ! w))" by (simp add: inv_opt_def)
    then show ?thesis by (rule relaxed_decrease) simp_all
  qed
  have t': "node_value (s_nodes ?m ! w) \<le> node_value (s_nodes ?m ! ?u)"
    if "w < length (s_nodes ?m)" "visited (s_nodes ?m ! w)" for w
  proof (cases "w = ?u")
    case True
    then show ?thesis by simp
  next
    case False
    with that assms(6) old [of w] val show ?thesis by simp
  qed
  from c' o' t' show "inv_relaxing ns s ?u [] ?m"
    unfolding inv_relaxing_def by (simp add: relaxed_def)
qed

lemma inv_opt_stale:
  assumes "inv_opt ns s st"
  shows "inv_opt ns s (st\<lparr>prio_queue := removeAll c (prio_queue st)\<rparr>)"
proof -
  from assms have core: "inv_core ns s st" by (simp add: inv_opt_def)
  note d = inv_coreD [OF core]
  have "inv_core ns s (st\<lparr>prio_queue := removeAll c (prio_queue st)\<rparr>)"
  proof (rule inv_coreI)
    fix w k p
    assume "w < length (s_nodes (st\<lparr>prio_queue := removeAll c (prio_queue st)\<rparr>))"
      "visited (s_nodes (st\<lparr>prio_queue := removeAll c (prio_queue st)\<rparr>) ! w)"
      "(k, p) \<in> set (prio_queue (st\<lparr>prio_queue := removeAll c (prio_queue st)\<rparr>))"
    then have "w < length (s_nodes st)" "visited (s_nodes st ! w)" "(k, p) \<in> set (prio_queue st)"
      by simp_all
    from d(2) [OF this]
    show "node_value (s_nodes (st\<lparr>prio_queue := removeAll c (prio_queue st)\<rparr>) ! w) \<le> k"
      by simp
  next
    fix i j p v q w
    assume "i < j" "j < length (events (st\<lparr>prio_queue := removeAll c (prio_queue st)\<rparr>))"
      "events (st\<lparr>prio_queue := removeAll c (prio_queue st)\<rparr>) ! i = Mark_Visited p v"
      "events (st\<lparr>prio_queue := removeAll c (prio_queue st)\<rparr>) ! j = Mark_Visited q w"
    with d(4) [of i j p v q w] show "v \<le> w" by simp
  qed (use d(1,3) in simp_all)
  with assms show ?thesis by (simp add: inv_opt_def relaxed_def)
qed

lemma inv_visit_marked:
  assumes "bounded_schedule M ns" "inv_all M ns s st"
    and "c \<in> set (prio_queue st)" "\<forall>(k, p) \<in> set (prio_queue st). fst c \<le> k"
    and "snd c < length (s_nodes st)" "\<not> visited (s_nodes st ! snd c)"
  shows "inv_visit M ns s (snd c) [] (marked st c)"
proof -
  let ?u = "snd c"
  from assms(2) have sg: "same_graph ns st" and iq: "inv_queue st" and ie: "inv_events st"
    and ib: "inv_bound M st" and io: "inv_opt ns s st"
    by (simp_all add: inv_all_def)
  note m = inv_relaxing_marked [OF io iq ie assms(3,4,5,6)]
  from iq assms(3) have "fst c < INF_val" by (cases c) (auto simp: inv_queue_def)
  with m(2) have "node_value (s_nodes st ! ?u) \<noteq> INF_val" by simp
  with ib assms(1,5,6) have "inv_bound M (marked st c)"
    by (intro inv_bound_marked) (simp_all add: bounded_schedule_def)
  with sg iq assms(3,5) m(1) show ?thesis
    by (simp add: inv_visit_def same_graph_marked inv_queue_marked)
qed

lemma inv_visit_relax_edge:
  assumes "bounded_schedule M ns" "inv_visit M ns s u ds x" "e \<in> set (edges (ns ! u))"
    and "relax_edge u e x = Inr x'"
  shows "inv_visit M ns s u (ds @ [e]) x'"
proof -
  from assms(2) have xs: "same_graph ns x" "inv_queue x" "inv_bound M x" "u < length (s_nodes x)"
    "visited (s_nodes x ! u)" "inv_relaxing ns s u ds x"
    by (simp_all add: inv_visit_def)
  from assms(3) xs(1,4) have e'': "e \<in> set (edges (s_nodes x ! u))" by (simp add: same_graph_def)
  from xs(1) assms(4) have "same_graph ns x'" by (rule same_graph_relax_edge)
  moreover from xs(2) assms(4) have "inv_queue x'" by (rule inv_queue_relax_edge)
  moreover from assms(1) xs(1,3,4,5) e'' assms(4) have "inv_bound M x'"
    by (rule inv_bound_relax_edge)
  moreover from relax_edge_visited [OF assms(4)] xs(4,5) have "u < length (s_nodes x')"
    "visited (s_nodes x' ! u)" by simp_all
  moreover from assms(1) xs(1,2,3,4,5) assms(3) xs(6) assms(4)
  have "inv_relaxing ns s u (ds @ [e]) x'"
    by (rule inv_relaxing_relax_edge)
  ultimately show ?thesis by (simp add: inv_visit_def)
qed

lemma inv_all_loop_body:
  assumes "bounded_schedule M ns" "inv_all M ns s st" "prio_queue st \<noteq> []"
    and "loop_body addr st = Inr st'"
  shows "inv_all M ns s st'"
proof -
  from assms(2) have sg: "same_graph ns st" and iq: "inv_queue st" and ie: "inv_events st"
    and ib: "inv_bound M st" and io: "inv_opt ns s st"
    by (simp_all add: inv_all_def)
  from iq assms(3,4) have iq': "inv_queue st'" by (rule inv_queue_loop_body)
  from ie assms(3,4) have ie': "inv_events st'" by (rule inv_events_loop_body)
  from assms(4,3) have "same_graph ns st' \<and> inv_bound M st' \<and> inv_opt ns s st'"
  proof (cases rule: loop_body_cases)
    case (stale c)
    with sg ib io show ?thesis
      by (simp add: inv_opt_stale) (simp add: same_graph_def inv_bound_def)
  next
    case (visit c)
    let ?u = "snd c"
    from sg visit(3) have es: "edges (s_nodes st ! ?u) = edges (ns ! ?u)"
      by (simp add: same_graph_def)
    from assms(1,2) visit(1,2,3,4) have "inv_visit M ns s ?u [] (marked st c)"
      by (rule inv_visit_marked)
    with visit(5) have "inv_visit M ns s ?u ([] @ edges (s_nodes st ! ?u)) st'"
    proof (rule relax_edges_invariant)
      fix ds e x x'
      assume "inv_visit M ns s ?u ds x" "e \<in> set (edges (s_nodes st ! ?u))"
        "relax_edge ?u e x = Inr x'"
      with assms(1) es show "inv_visit M ns s ?u (ds @ [e]) x'"
        by (intro inv_visit_relax_edge [of M ns s ?u ds x e x']) simp_all
    qed
    then have f: "same_graph ns st'" "inv_bound M st'" "inv_relaxing ns s ?u (edges (ns ! ?u)) st'"
      by (simp_all add: es inv_visit_def)
    from f(3) have "inv_opt ns s st'"
      unfolding inv_relaxing_def inv_opt_def by metis
    with f show ?thesis by simp
  qed
  with iq' ie' show ?thesis by (simp add: inv_all_def)
qed

lemma inv_all_loop_body_stopped:
  assumes "bounded_schedule M ns" "inv_all M ns s st" "prio_queue st \<noteq> []"
    and "loop_body addr st = Inl (f, x)"
  shows "inv_core ns s x"
  using assms(4,3)
proof (cases rule: loop_body_stopped_cases)
  case (outside c)
  from assms(2) have "inv_opt ns s st" by (simp add: inv_all_def)
  then have "inv_opt ns s (st\<lparr>prio_queue := removeAll c (prio_queue st)\<rparr>)"
    by (rule inv_opt_stale)
  with outside(2) show ?thesis by (simp add: inv_opt_def)
next
  case (visit c)
  let ?u = "snd c"
  from assms(2) visit(3) have es: "edges (s_nodes st ! ?u) = edges (ns ! ?u)"
    by (simp add: inv_all_def same_graph_def)
  from assms(1,2) visit(1,2,3,4) have "inv_visit M ns s ?u [] (marked st c)"
    by (rule inv_visit_marked)
  with visit(5) have "\<exists>ds. inv_visit M ns s ?u ds x"
  proof (rule relax_edges_invariant_stopped)
    fix ds e x x'
    assume "inv_visit M ns s ?u ds x" "e \<in> set (edges (s_nodes st ! ?u))"
      "relax_edge ?u e x = Inr x'"
    with assms(1) es show "inv_visit M ns s ?u (ds @ [e]) x'"
      by (intro inv_visit_relax_edge [of M ns s ?u ds x e x']) simp_all
  qed
  then show ?thesis by (auto simp: inv_visit_def inv_relaxing_def)
qed

lemma dijkstra_search_inv_all:
  assumes "dijkstra_search addr gr s = Inr st" "bounded_schedule M (nodes gr)"
  shows "inv_all M (nodes gr) (nat s) st"
proof -
  note s = dijkstra_search_Inr [OF assms(1)]
  from assms(2) have "0 \<le> M" by (simp add: bounded_schedule_def)
  with s(2) have "inv_all M (nodes gr) (nat s) (start_state gr (nat s))"
    by (simp add: inv_all_def same_graph_start inv_queue_start inv_events_start inv_bound_start
        inv_opt_start)
  with s(3) have "inv_all M (nodes gr) (nat s) st \<and> prio_queue st = []"
    by (rule dijkstra_loop_invariant) (rule inv_all_loop_body [OF assms(2)])
  then show ?thesis by simp
qed

section \<open>Earliest arrival: the result\<close>

lemma final_complete:
  assumes "inv_all M ns s st" "prio_queue st = []" "bounded_schedule M ns"
    and "s < length ns" "visited (s_nodes st ! s)"
    and "path_arrival ns s path 0 = Some (v, t)"
  shows "v < length ns \<and> visited (s_nodes st ! v) \<and> node_value (s_nodes st ! v) \<le> t"
  using assms(6)
proof (induction path arbitrary: v t rule: rev_induct)
  case Nil
  from assms(1) have "node_value (s_nodes st ! s) = 0"
    by (simp add: inv_all_def inv_opt_def inv_core_def)
  with Nil assms(4,5) show ?case by simp
next
  case (snoc e es)
  from assms(1) have sg: "same_graph ns st" and iq: "inv_queue st" and ib: "inv_bound M st"
    and io: "inv_opt ns s st"
    by (simp_all add: inv_all_def)
  from snoc.prems obtain w b where wb: "path_arrival ns s es 0 = Some (w, b)"
    and w: "w < length ns" and e: "e \<in> set (edges (ns ! w))"
    and sch: "edge_schedule e b = Some t" and v: "v = connection_node e"
    by (auto simp: path_arrival_snoc split: option.splits if_splits)
  from snoc.IH [OF wb] have vis: "visited (s_nodes st ! w)"
    and le: "node_value (s_nodes st ! w) \<le> b"
    by simp_all
  from sg w have w': "w < length (s_nodes st)" and e': "e \<in> set (edges (s_nodes st ! w))"
    using e by (simp_all add: same_graph_def)
  note b = bounded_schedule_edge [OF assms(3) sg w' e']
  note room = inv_bound_visited_room [OF assms(3) sg ib w' vis]
  from edge_schedule_mono [OF b(1,2) le sch] obtain a
    where a: "edge_schedule e (node_value (s_nodes st ! w)) = Some a" "a \<le> t"
    by blast
  from io w' vis have "relaxed st w (edges (ns ! w))" by (simp add: inv_opt_def)
  with e a(1) v have r: "v < length (s_nodes st)" "node_value (s_nodes st ! v) \<le> a"
    by (auto simp: relaxed_def)
  from edge_schedule_bounds(2) [OF b(1,2,3) room(2) a(1)] b(4) room(1) have "a < INF_val"
    by simp
  with r(2) have "node_value (s_nodes st ! v) \<noteq> INF_val" by simp
  with iq r(1) assms(2) have "visited (s_nodes st ! v)"
    unfolding inv_queue_def by auto
  with r a(2) sg show ?case by (simp add: same_graph_def)
qed

lemma final_sound:
  assumes "inv_all M ns s st" "v < length (s_nodes st)" "visited (s_nodes st ! v)"
  shows "\<exists>path. path_arrival ns s path 0 = Some (v, node_value (s_nodes st ! v))"
proof -
  from assms have "node_value (s_nodes st ! v) < INF_val"
    by (simp add: inv_all_def inv_queue_def)
  with assms(1,2) show ?thesis
    by (simp add: inv_all_def inv_opt_def inv_core_def)
qed

lemma search_in_order:
  assumes "dijkstra_search addr gr s = Inr st" "bounded_schedule M (nodes gr)"
    and "i < j" "j < length (events st)"
    and "events st ! i = Mark_Visited p v" "events st ! j = Mark_Visited q w"
  shows "v \<le> w"
proof -
  from dijkstra_search_inv_all [OF assms(1,2)] have "inv_core (nodes gr) (nat s) st"
    by (simp add: inv_all_def inv_opt_def)
  from inv_coreD(4) [OF this assms(3-6)] show ?thesis .
qed

lemma search_values_nonneg:
  assumes "dijkstra_search addr gr s = Inr st" "bounded_schedule M (nodes gr)"
    and "p < length (nodes gr)"
  shows "0 \<le> node_value (s_nodes st ! p)"
  using dijkstra_search_inv_all [OF assms(1,2)] assms(3)
  by (simp add: inv_all_def inv_bound_def same_graph_def)

lemma search_earliest:
  assumes "dijkstra_search addr gr s = Inr st" "bounded_schedule M (nodes gr)"
    and "v < length (nodes gr)"
  shows "\<forall>path t. path_arrival (nodes gr) (nat s) path 0 = Some (v, t) \<longrightarrow>
           visited (s_nodes st ! v) \<and> node_value (s_nodes st ! v) \<le> t"
    and "visited (s_nodes st ! v) \<longrightarrow>
           (\<exists>path. path_arrival (nodes gr) (nat s) path 0 = Some (v, node_value (s_nodes st ! v)))"
    and "\<not> visited (s_nodes st ! v) \<longrightarrow> node_value (s_nodes st ! v) = INF_val"
proof -
  note ia = dijkstra_search_inv_all [OF assms(1,2)]
  note s = dijkstra_search_Inr [OF assms(1)]
  note e = dijkstra_search_inv_queue(2) [OF assms(1)]
  note sv = dijkstra_search_source_visited [OF assms(1)]
  note len = dijkstra_search_length [OF assms(1)]
  show "\<forall>path t. path_arrival (nodes gr) (nat s) path 0 = Some (v, t) \<longrightarrow>
           visited (s_nodes st ! v) \<and> node_value (s_nodes st ! v) \<le> t"
    using final_complete [OF ia e assms(2) s(2) sv] by blast
  show "visited (s_nodes st ! v) \<longrightarrow>
           (\<exists>path. path_arrival (nodes gr) (nat s) path 0 = Some (v, node_value (s_nodes st ! v)))"
    using final_sound [OF ia] assms(3) len by simp
  show "\<not> visited (s_nodes st ! v) \<longrightarrow> node_value (s_nodes st ! v) = INF_val"
    using final_unvisited_value [OF assms(1)] assms(3) len by simp
qed

lemma run_in_order:
  assumes "bounded_schedule M (nodes gr)"
    and "i < j" "j < length (run_events addr gr s)"
    and "run_events addr gr s ! i = Mark_Visited p v"
    and "run_events addr gr s ! j = Mark_Visited q w"
  shows "v \<le> w"
proof (cases "dijkstra_search addr gr s")
  case (Inr st)
  with assms(3-5) have "j < length (events st)" "events st ! i = Mark_Visited p v"
    "events st ! j = Mark_Visited q w"
    by (simp_all add: run_events_def last_state_def)
  with Inr assms(1,2) show ?thesis by (intro search_in_order [of addr gr s st M i j p v q w])
next
  case (Inl a)
  obtain f x where a: "a = (f, x)" by (cases a)
  from Inl a have r: "dijkstra_search addr gr s = Inl (f, x)" by simp
  with assms(3-5) have e: "j < length (events x)" "events x ! i = Mark_Visited p v"
    "events x ! j = Mark_Visited q w"
    by (simp_all add: run_events_def last_state_def)
  from r show ?thesis
  proof (cases rule: dijkstra_search_stopped)
    case outside
    from outside(3) e(1) have "events x ! j \<noteq> Mark_Visited q w" by (rule no_mark_before_loop)
    with e(3) show ?thesis by simp
  next
    case inside
    from assms(1) have "0 \<le> M" by (simp add: bounded_schedule_def)
    with inside(2) have "inv_all M (nodes gr) (nat s) (start_state gr (nat s))"
      by (simp add: inv_all_def same_graph_start inv_queue_start inv_events_start inv_bound_start
          inv_opt_start)
    with inside(3) have "inv_core (nodes gr) (nat s) x"
      by (rule dijkstra_loop_invariant_stopped)
        (rule inv_all_loop_body [OF assms(1)], assumption+,
         rule inv_all_loop_body_stopped [OF assms(1)])
    from inv_coreD(4) [OF this assms(2) e] show ?thesis .
  qed
qed

section \<open>The order of the visits and the earliest arrival\<close>

lemma scenario_bounded: "bounded_schedule 14 (nodes scenario_graph)"
  by (simp add: bounded_schedule_def scenario_graph_def INF_val_def)

lemma one_shot_bounded: "bounded_schedule 8 (nodes one_shot_graph)"
  by (simp add: bounded_schedule_def one_shot_graph_def INF_val_def)

lemma scenario_built:
  "add_edges (Graph 4 INF_val 0) [(0, 1, 5, 0, 2), (1, 2, 10, 3, 1), (1, 3, 5, 0, 1)]
     = Inr scenario_graph"
  by code_simp

text \<open>
  C5, as stated, fails in 32-bit arithmetic. On the graph with a one-shot edge from 0 to 1
  leaving at 2147483647 with duration 1, the sum for node 1 wraps around: node 1 is marked
  visited with the value -2147483648 after node 0 was marked with the value 0.
\<close>

theorem visited_out_of_order:
  "map_sum fst events (dijkstra_search (\<lambda>n. n) overflow_graph 0)
     = Inr [Set_Value 0 2147483647, Set_Value 1 2147483647, Set_Value 0 0, Mark_Visited 0 0,
            Set_Value 1 (- 2147483648), Mark_Visited 1 (- 2147483648)]"
  by code_simp

text \<open>
  C5 (amended). On a graph whose edges have non-negative departure start, period and
  duration with \<open>departure start + period + duration \<le> M\<close>, where the number of nodes
  times \<open>M\<close> is below \<open>INT_MAX\<close> (so that no sum of the search leaves the 32-bit range),
  the nodes are marked visited in non-decreasing order of their values in every run of
  \<open>dijkstra_timetable\<close>, whether it returns or stops on a fault.
\<close>

theorem visited_in_order_of_value:
  assumes "bounded_schedule M (nodes gr)"
    and "i < j" "j < length (run_events addr gr s)"
    and "run_events addr gr s ! i = Mark_Visited p v"
    and "run_events addr gr s ! j = Mark_Visited q w"
  shows "v \<le> w"
  using assms by (rule run_in_order)

theorem visited_in_order_of_value_witness:
  "bounded_schedule 14 (nodes scenario_graph)
   \<and> run_events (\<lambda>n. n) scenario_graph 0 ! 7 = Mark_Visited 1 7
   \<and> run_events (\<lambda>n. n) scenario_graph 0 ! 9 = Mark_Visited 2 11
   \<and> (7::int) \<le> 11
   \<and> bounded_schedule 8 (nodes one_shot_graph)
   \<and> dijkstra_timetable (\<lambda>n. n) one_shot_graph 0 = Inl Division_Fault
   \<and> run_events (\<lambda>n. n) one_shot_graph 0 ! 4 = Mark_Visited 0 0
   \<and> run_events (\<lambda>n. n) one_shot_graph 0 ! 6 = Mark_Visited 1 7
   \<and> (0::int) \<le> 7"
proof -
  have j: "9 < length (run_events (\<lambda>n. n) scenario_graph 0)"
    and e: "run_events (\<lambda>n. n) scenario_graph 0 ! 7 = Mark_Visited 1 7"
      "run_events (\<lambda>n. n) scenario_graph 0 ! 9 = Mark_Visited 2 11"
    by (simp_all add: scenario_events scenario_final_def)
  have j': "6 < length (run_events (\<lambda>n. n) one_shot_graph 0)"
    and e': "run_events (\<lambda>n. n) one_shot_graph 0 ! 4 = Mark_Visited 0 0"
      "run_events (\<lambda>n. n) one_shot_graph 0 ! 6 = Mark_Visited 1 7"
    by (simp_all add: one_shot_events)
  have "(7::nat) < 9" by simp
  from visited_in_order_of_value [OF scenario_bounded this j e]
  have a: "(7::int) \<le> 11" .
  have "(4::nat) < 6" by simp
  from visited_in_order_of_value [OF one_shot_bounded this j' e']
  have b: "(0::int) \<le> 7" .
  from a b scenario_bounded one_shot_bounded one_shot_stops e e' show ?thesis by blast
qed

text \<open>
  C1, as stated, fails in 32-bit arithmetic. On the same graph the only path to node 1
  arrives at 2147483648, and the search leaves the value -2147483648 in node 1.
\<close>

theorem value_not_earliest_arrival:
  "map_sum id (map node_value \<circ> nodes) (dijkstra_timetable (\<lambda>n. n) overflow_graph 0)
     = Inr [0, - 2147483648]
   \<and> path_arrival (nodes overflow_graph) 0
        [\<lparr>connection_node = 1, traverse_time = 1, start_time = 2147483647, departure_time = 0\<rparr>] 0
     = Some (1, 2147483648)"
  by code_simp

text \<open>
  C1 (amended). On a graph whose edges have non-negative departure start, period and
  duration with \<open>departure start + period + duration \<le> M\<close>, where the number of nodes
  times \<open>M\<close> is below \<open>INT_MAX\<close>, after \<open>dijkstra_timetable\<close> has completed: a node
  that some path from the source reaches (every edge of the path still taken in time,
  starting from time 0) is visited and its value is the minimum of the arrival times over
  all such paths; every other node is unvisited and holds the sentinel.
\<close>

theorem earliest_arrival:
  assumes "dijkstra_timetable addr gr s = Inr g'" and "bounded_schedule M (nodes gr)"
    and "v < length (nodes gr)"
  shows "(\<forall>path t. path_arrival (nodes gr) (nat s) path 0 = Some (v, t) \<longrightarrow>
            visited (nodes g' ! v) \<and> node_value (nodes g' ! v) \<le> t)
     \<and> (visited (nodes g' ! v) \<longrightarrow>
           (\<exists>path. path_arrival (nodes gr) (nat s) path 0 = Some (v, node_value (nodes g' ! v))))
     \<and> (\<not> visited (nodes g' ! v) \<longrightarrow> node_value (nodes g' ! v) = INF_val \<and>
           (\<forall>path t. path_arrival (nodes gr) (nat s) path 0 \<noteq> Some (v, t)))"
proof -
  from assms(1) obtain st where st: "dijkstra_search addr gr s = Inr st"
    "nodes g' = s_nodes st"
    by (rule dijkstra_timetable_Inr)
  note e = search_earliest [OF st(1) assms(2,3)]
  from e(1) have "\<not> visited (s_nodes st ! v) \<longrightarrow>
      (\<forall>path t. path_arrival (nodes gr) (nat s) path 0 \<noteq> Some (v, t))"
    by blast
  with e st(2) show ?thesis by simp
qed

theorem earliest_arrival_witness:
  "dijkstra_timetable (\<lambda>n. n) scenario_graph 0 = Inr scenario_result
   \<and> bounded_schedule 14 (nodes scenario_graph)
   \<and> path_arrival (nodes scenario_graph) 0
        [\<lparr>connection_node = 1, traverse_time = 2, start_time = 5, departure_time = 0\<rparr>,
         \<lparr>connection_node = 2, traverse_time = 1, start_time = 10, departure_time = 3\<rparr>] 0
      = Some (2, 11)
   \<and> visited (nodes scenario_result ! 2) \<and> node_value (nodes scenario_result ! 2) \<le> 11
   \<and> \<not> visited (nodes scenario_result ! 3) \<and> node_value (nodes scenario_result ! 3) = INF_val"
proof -
  have l: "2 < length (nodes scenario_graph)" "3 < length (nodes scenario_graph)"
    by (simp_all add: scenario_graph_def)
  have p: "path_arrival (nodes scenario_graph) (nat 0)
        [\<lparr>connection_node = 1, traverse_time = 2, start_time = 5, departure_time = 0\<rparr>,
         \<lparr>connection_node = 2, traverse_time = 1, start_time = 10, departure_time = 3\<rparr>] 0
      = Some (2, 11)"
    by code_simp
  have u: "\<not> visited (nodes scenario_result ! 3)"
    by (simp add: scenario_result_def scenario_final_def)
  from earliest_arrival [OF scenario_run scenario_bounded l(1)] p
  have a: "visited (nodes scenario_result ! 2) \<and> node_value (nodes scenario_result ! 2) \<le> 11"
    by blast
  from earliest_arrival [OF scenario_run scenario_bounded l(2)] u
  have b: "node_value (nodes scenario_result ! 3) = INF_val"
    by blast
  from a b u p scenario_run scenario_bounded show ?thesis by simp
qed

section \<open>The answers to the queries\<close>

lemma answer_queries_eq:
  assumes "\<forall>q \<in> set queries. 0 \<le> q \<and> q < int (length (nodes g))"
  shows "answer_queries g queries =
     Inr (map (\<lambda>q. if node_value (nodes g ! nat q) = INF_val then ''Impossible''
                    else show_int (node_value (nodes g ! nat q))) queries)"
  using assms by (induction queries) (simp_all add: get_node_def Let_def)

text \<open>
  C8, as stated, fails in 32-bit arithmetic: on the graph with a one-shot edge from 0 to 1
  leaving at 2147483647 with duration 1, the line written for node 1 is a negative number.
\<close>

theorem negative_answer:
  "test_case (\<lambda>n. n) 2 0 [(0, 1, 2147483647, 0, 1)] [1, 0] = Inr [''-2147483648'', ''0'']"
  by code_simp

text \<open>
  C8 (amended). When the graph has been built and the search has completed, the program
  writes one line for every query that names a node of the graph, in the order of the
  queries and without a fault: \<open>Impossible\<close> when the node holds the sentinel, the decimal
  digits of the node's value otherwise. The value is non-negative on a graph whose edges
  have non-negative departure start, period and duration with
  \<open>departure start + period + duration \<le> M\<close>, where the number of nodes times \<open>M\<close> is
  below \<open>INT_MAX\<close>.
\<close>

theorem test_case_output:
  assumes "add_edges (Graph num_nodes INF_val s) records = Inr gr"
    and "dijkstra_timetable addr gr s = Inr g'"
    and "\<forall>q \<in> set queries. 0 \<le> q \<and> q < int (length (nodes gr))"
  shows "test_case addr num_nodes s records queries =
       Inr (map (\<lambda>q. if node_value (nodes g' ! nat q) = INF_val then ''Impossible''
                      else show_int (node_value (nodes g' ! nat q))) queries)
     \<and> (bounded_schedule M (nodes gr) \<longrightarrow>
          (\<forall>q \<in> set queries. 0 \<le> node_value (nodes g' ! nat q)))"
proof -
  from assms(2) obtain st where st: "dijkstra_search addr gr s = Inr st"
    "nodes g' = s_nodes st"
    by (rule dijkstra_timetable_Inr)
  from dijkstra_search_length [OF st(1)] st(2) have len: "length (nodes g') = length (nodes gr)"
    by simp
  with assms(3) have "\<forall>q \<in> set queries. 0 \<le> q \<and> q < int (length (nodes g'))" by simp
  from answer_queries_eq [OF this] assms(1,2)
  have out: "test_case addr num_nodes s records queries =
       Inr (map (\<lambda>q. if node_value (nodes g' ! nat q) = INF_val then ''Impossible''
                      else show_int (node_value (nodes g' ! nat q))) queries)"
    by (simp add: test_case_def)
  have "0 \<le> node_value (nodes g' ! nat q)"
    if "bounded_schedule M (nodes gr)" "q \<in> set queries" for q
  proof -
    from that(2) assms(3) have "nat q < length (nodes gr)" by auto
    from search_values_nonneg [OF st(1) that(1) this] st(2) show ?thesis by simp
  qed
  with out show ?thesis by blast
qed

theorem test_case_output_witness:
  "add_edges (Graph 4 INF_val 0) [(0, 1, 5, 0, 2), (1, 2, 10, 3, 1), (1, 3, 5, 0, 1)]
     = Inr scenario_graph
   \<and> dijkstra_timetable (\<lambda>n. n) scenario_graph 0 = Inr scenario_result
   \<and> bounded_schedule 14 (nodes scenario_graph)
   \<and> test_case (\<lambda>n. n) 4 0 [(0, 1, 5, 0, 2), (1, 2, 10, 3, 1), (1, 3, 5, 0, 1)] [2, 3, 1]
       = Inr [''11'', ''Impossible'', ''7'']
   \<and> 0 \<le> node_value (nodes scenario_result ! 2)"
proof -
  have q: "\<forall>q \<in> set [2, 3, 1]. 0 \<le> q \<and> q < int (length (nodes scenario_graph))"
    by (simp add: scenario_graph_def)
  have m: "map (\<lambda>q. if node_value (nodes scenario_result ! nat q) = INF_val then ''Impossible''
                      else show_int (node_value (nodes scenario_result ! nat q))) [2, 3, 1]
       = [''11'', ''Impossible'', ''7'']"
    by code_simp
  note t = test_case_output [OF scenario_built scenario_run q, of 14]
  from t m have "test_case (\<lambda>n. n) 4 0 [(0, 1, 5, 0, 2), (1, 2, 10, 3, 1), (1, 3, 5, 0, 1)] [2, 3, 1]
       = Inr [''11'', ''Impossible'', ''7'']"
    by simp
  moreover from t scenario_bounded have "0 \<le> node_value (nodes scenario_result ! 2)"
    by simp
  ultimately show ?thesis
    using scenario_built scenario_run scenario_bounded by simp
qed

text \<open>
  C3 (the code misses the claim). With \<open>current_time = start_time\<close> on a one-shot edge
  (\<open>departure_time = 0\<close>) neither the first test (\<open>current_time > start_time\<close>) nor the
  second (\<open>current_time < start_time\<close>) holds, so the remainder by \<open>departure_time = 0\<close>
  is evaluated: the function does not return a value there. The program stops on it for
  the input with the single edge from node 0 to node 1 that leaves once at time 0, when
  the search starts from node 0.
\<close>

theorem get_travel_time_one_shot_at_departure_faults:
  "get_travel_time \<lparr>connection_node = 1, traverse_time = 5, start_time = 0, departure_time = 0\<rparr> 0
     = Inl Division_Fault
   \<and> test_case (\<lambda>n. n) 2 0 [(0, 1, 0, 0, 5)] [1] = Inl Division_Fault"
  by code_simp

section \<open>The constant-weight search as a timetable search\<close>

lemma wrap32_range: "- 2147483648 \<le> wrap32 x \<and> wrap32 x \<le> 2147483647"
proof -
  have "0 \<le> (x + 2147483648) mod 4294967296" "(x + 2147483648) mod 4294967296 < 4294967296"
    by simp_all
  then show ?thesis unfolding wrap32_def by linarith
qed

lemma wrap32_idem: "wrap32 (wrap32 x) = wrap32 x"
  using wrap32_range [of x] by (intro wrap32_id) simp_all

lemma timetable_edge_wait:
  assumes "0 \<le> t" "t \<le> INF_val"
  shows "wait_time (timetable_edge c) t = Inr 0"
proof -
  from assms have "sub32 t 0 = t" by (simp add: sub32_def wrap32_id INF_val_def)
  moreover have "rem32 t 1 = Inr 0"
    by (simp add: rem32_def smod_int_alt_def)
  ultimately show ?thesis
    using assms(1) by (simp add: wait_time_def timetable_edge_def)
qed

lemma timetable_edge_travel_time:
  assumes "0 \<le> t" "t \<le> INF_val"
  shows "get_travel_time (timetable_edge c) t = Inr (add32 t (edge_cost c))"
proof -
  have "get_travel_time (timetable_edge c) t = Inr (add32 (add32 t (edge_cost c)) 0)"
    using timetable_edge_wait [OF assms, of c]
    by (simp add: get_travel_time_def) (simp add: timetable_edge_def)
  then show ?thesis by (simp add: add32_def wrap32_idem)
qed

lemma same_searchD:
  assumes "same_search st wst"
  shows "length (s_nodes st) = length (ws_nodes wst)"
    and "prio_queue st = ws_prio_queue wst"
    and "\<And>p. p < length (ws_nodes wst) \<Longrightarrow> visited (s_nodes st ! p) = w_visited (ws_nodes wst ! p)"
    and "\<And>p. p < length (ws_nodes wst) \<Longrightarrow> node_value (s_nodes st ! p) = w_value (ws_nodes wst ! p)"
    and "\<And>p. p < length (ws_nodes wst) \<Longrightarrow>
           edges (s_nodes st ! p) = map timetable_edge (w_edges (ws_nodes wst ! p))"
  using assms by (simp_all add: same_search_def timetable_node_def)

lemma map_timetable_improved:
  assumes "v < length wns"
  shows "set_prev_node (set_value (map timetable_node wns) v t) v (Some u) =
     map timetable_node (wns[v := (wns ! v)\<lparr>w_value := t, w_prev_node := Some u\<rparr>])"
  using assms by (simp add: set_prev_node_def set_value_def map_update timetable_node_def)

lemma map_timetable_visited:
  assumes "u < length wns"
  shows "set_visited (map timetable_node wns) u True =
     map timetable_node (wns[u := (wns ! u)\<lparr>w_visited := True\<rparr>])"
  using assms by (simp add: set_visited_def map_update timetable_node_def)

lemma relax_edge_simulation:
  assumes "same_search st wst" "u < length (s_nodes st)"
    and "0 \<le> node_value (s_nodes st ! u)" "node_value (s_nodes st ! u) \<le> INF_val"
  shows "rel_sum same_fault same_search (relax_edge u (timetable_edge c) st) (w_relax_edge u c wst)"
proof -
  note d = same_searchD [OF assms(1)]
  let ?v = "w_connection_node c"
  have cn: "connection_node (timetable_edge c) = ?v" by (simp add: timetable_edge_def)
  from assms(2) d(1) have u: "u < length (ws_nodes wst)" by simp
  note tt = timetable_edge_travel_time [OF assms(3,4), of c]
  show ?thesis
  proof (cases "?v < length (ws_nodes wst)")
    case False
    with d(1) show ?thesis by (simp add: relax_edge_def w_relax_edge_def cn same_fault_def)
  next
    case v: True
    show ?thesis
    proof (cases "w_visited (ws_nodes wst ! ?v)")
      case True
      with v d(1) d(3) [OF v] assms(1) show ?thesis
        by (simp add: relax_edge_def w_relax_edge_def cn)
    next
      case False
      let ?t = "add32 (w_value (ws_nodes wst ! u)) (edge_cost c)"
      from tt d(4) [OF u] have t: "get_travel_time (timetable_edge c) (node_value (s_nodes st ! u)) = Inr ?t"
        by simp
      show ?thesis
      proof (cases "?t < w_value (ws_nodes wst ! ?v)")
        case True
        have "same_search
            (st\<lparr>s_nodes := set_prev_node (set_value (s_nodes st) ?v ?t) ?v (Some u),
                prio_queue := List.insert (?t, ?v) (prio_queue st),
                events := events st @ [Set_Value ?v ?t]\<rparr>)
            (wst\<lparr>ws_nodes := (ws_nodes wst)[?v := (ws_nodes wst ! ?v)\<lparr>w_value := ?t, w_prev_node := Some u\<rparr>],
                 ws_prio_queue := List.insert (?t, ?v) (ws_prio_queue wst)\<rparr>)"
          using assms(1) v by (simp add: same_search_def map_timetable_improved)
        with True False v d(1) d(3) [OF v] d(4) [OF v] t show ?thesis
          by (simp add: relax_edge_def w_relax_edge_def cn Let_def)
      next
        case nt: False
        with False v d(1) d(3) [OF v] d(4) [OF v] t assms(1) show ?thesis
          by (simp add: relax_edge_def w_relax_edge_def cn Let_def)
      qed
    qed
  qed
qed

lemma relax_edge_visited_value:
  assumes "relax_edge u e st = Inr st'" "visited (s_nodes st ! w)"
  shows "node_value (s_nodes st' ! w) = node_value (s_nodes st ! w)"
  using assms(1)
proof (cases rule: relax_edge_cases)
  case (improve t)
  with assms(2) show ?thesis by (cases "w = connection_node e") auto
qed simp_all

lemma relax_edges_simulation:
  assumes "same_search st wst" "u < length (s_nodes st)" "visited (s_nodes st ! u)"
    and "0 \<le> node_value (s_nodes st ! u)" "node_value (s_nodes st ! u) \<le> INF_val"
  shows "rel_sum same_fault same_search (relax_edges u (map timetable_edge cs) st) (w_relax_edges u cs wst)"
  using assms
proof (induction cs arbitrary: st wst)
  case Nil
  then show ?case by simp
next
  case (Cons c cs)
  from relax_edge_simulation [OF Cons.prems(1,2,4,5), of c]
  have r: "rel_sum same_fault same_search (relax_edge u (timetable_edge c) st) (w_relax_edge u c wst)" .
  show ?case
  proof (cases "relax_edge u (timetable_edge c) st")
    case (Inl f)
    with r have "w_relax_edge u c wst = Inl (fst f)"
      by (cases "w_relax_edge u c wst") (simp_all add: same_fault_def)
    with Inl show ?thesis by (simp add: same_fault_def)
  next
    case (Inr st1)
    with r obtain wst1 where w: "w_relax_edge u c wst = Inr wst1" "same_search st1 wst1"
      by (cases "w_relax_edge u c wst") simp_all
    from relax_edge_visited [OF Inr] Cons.prems(2,3) relax_edge_visited_value [OF Inr Cons.prems(3)]
      Cons.prems(4,5)
    have "u < length (s_nodes st1)" "visited (s_nodes st1 ! u)"
      "0 \<le> node_value (s_nodes st1 ! u)" "node_value (s_nodes st1 ! u) \<le> INF_val"
      by simp_all
    from Cons.IH [OF w(2) this] Inr w(1) show ?thesis by simp
  qed
qed

lemma loop_body_simulation:
  assumes "same_search st wst"
    and "\<And>p. p < length (s_nodes st) \<Longrightarrow>
           0 \<le> node_value (s_nodes st ! p) \<and> node_value (s_nodes st ! p) \<le> INF_val"
  shows "rel_sum same_fault same_search (loop_body addr st) (w_loop_body addr wst)"
proof -
  note d = same_searchD [OF assms(1)]
  let ?c = "pq_begin addr (prio_queue st)"
  let ?u = "snd ?c"
  from d(2) have c: "pq_begin addr (ws_prio_queue wst) = ?c" by simp
  show ?thesis
  proof (cases "?u < length (ws_nodes wst)")
    case False
    with d(1) c show ?thesis by (simp add: loop_body_def w_loop_body_def Let_def same_fault_def)
  next
    case u: True
    show ?thesis
    proof (cases "w_visited (ws_nodes wst ! ?u)")
      case True
      have "same_search (st\<lparr>prio_queue := removeAll ?c (prio_queue st)\<rparr>)
          (wst\<lparr>ws_prio_queue := removeAll ?c (ws_prio_queue wst)\<rparr>)"
        using assms(1) by (simp add: same_search_def)
      with True u d(1) d(3) [OF u] c show ?thesis
        by (simp add: loop_body_def w_loop_body_def Let_def)
    next
      case False
      let ?m = "st\<lparr>prio_queue := removeAll ?c (prio_queue st),
                   s_nodes := set_visited (s_nodes st) ?u True,
                   events := events st @ [Mark_Visited ?u (node_value (s_nodes st ! ?u))]\<rparr>"
      let ?wm = "wst\<lparr>ws_prio_queue := removeAll ?c (ws_prio_queue wst),
                     ws_nodes := (ws_nodes wst)[?u := (ws_nodes wst ! ?u)\<lparr>w_visited := True\<rparr>]\<rparr>"
      have m: "same_search ?m ?wm"
        using assms(1) u by (simp add: same_search_def map_timetable_visited)
      from u d(1) have ul: "?u < length (s_nodes st)" by simp
      from assms(2) [OF ul] ul
      have "rel_sum same_fault same_search
          (relax_edges ?u (map timetable_edge (w_edges (ws_nodes wst ! ?u))) ?m)
          (w_relax_edges ?u (w_edges (ws_nodes wst ! ?u)) ?wm)"
        by (intro relax_edges_simulation [OF m]) simp_all
      with False u d(1) d(3) [OF u] d(5) [OF u] c show ?thesis
        by (simp add: loop_body_def w_loop_body_def Let_def)
    qed
  qed
qed

lemma dijkstra_loop_simulation:
  assumes "bounded_schedule M ns" "inv_all M ns s st" "same_search st wst"
  shows "rel_sum same_fault same_search (dijkstra_loop addr st) (w_dijkstra_loop addr wst)"
  using assms(2,3)
proof (induction addr st arbitrary: wst rule: dijkstra_loop.induct)
  case (1 addr st)
  note d = same_searchD [OF "1.prems"(2)]
  show ?case
  proof (cases "prio_queue st = []")
    case True
    with d(2) "1.prems"(2) show ?thesis
      by (simp add: dijkstra_loop.simps w_dijkstra_loop.simps)
  next
    case False
    have range: "0 \<le> node_value (s_nodes st ! p) \<and> node_value (s_nodes st ! p) \<le> INF_val"
      if "p < length (s_nodes st)" for p
      using "1.prems"(1) that by (simp add: inv_all_def inv_bound_def inv_queue_def)
    from loop_body_simulation [OF "1.prems"(2) range]
    have r: "rel_sum same_fault same_search (loop_body addr st) (w_loop_body addr wst)" .
    show ?thesis
    proof (cases "loop_body addr st")
      case (Inl f)
      with r have "w_loop_body addr wst = Inl (fst f)"
        by (cases "w_loop_body addr wst") (simp_all add: same_fault_def)
      with Inl False d(2) show ?thesis
        by (simp add: dijkstra_loop.simps w_dijkstra_loop.simps same_fault_def)
    next
      case (Inr st1)
      with r obtain wst1 where w: "w_loop_body addr wst = Inr wst1" "same_search st1 wst1"
        by (cases "w_loop_body addr wst") simp_all
      from assms(1) "1.prems"(1) False Inr have "inv_all M ns s st1" by (rule inv_all_loop_body)
      from "1.IH" [OF False Inr this w(2)] Inr w(1) False d(2) show ?thesis
        by (simp add: dijkstra_loop.simps [of addr st] w_dijkstra_loop.simps [of addr wst])
    qed
  qed
qed

lemma inv_all_start:
  assumes "bounded_schedule M (nodes gr)" "p < length (nodes gr)"
  shows "inv_all M (nodes gr) p (start_state gr p)"
proof -
  from assms(1) have "0 \<le> M" by (simp add: bounded_schedule_def)
  with assms(2) show ?thesis
    by (simp add: inv_all_def same_graph_start inv_queue_start inv_events_start inv_bound_start
        inv_opt_start)
qed

lemma start_states_same:
  assumes "p < length (w_nodes g)"
  shows "same_search (start_state (timetable_graph g) p)
     \<lparr>ws_nodes = (w_nodes (w_graph_reset g (int p) INF_val))
         [p := (w_nodes (w_graph_reset g (int p) INF_val) ! p)\<lparr>w_value := 0\<rparr>],
      ws_prio_queue = [(0, p)]\<rparr>"
  using assms
  by (simp add: same_search_def start_state_def graph_reset_def w_graph_reset_def
      timetable_graph_def set_value_def map_update)
    (simp add: timetable_node_def comp_def)

lemma searches_agree:
  assumes "bounded_schedule M (nodes (timetable_graph g))"
  shows "map_sum id (map node_value \<circ> nodes) (dijkstra_timetable addr (timetable_graph g) s)
       = map_sum id (map w_value \<circ> w_nodes) (dijkstra addr g s)"
proof (cases "0 \<le> s \<and> s < int (length (w_nodes g))")
  case False
  then show ?thesis
    by (auto simp: dijkstra_timetable_def dijkstra_search_def dijkstra_def get_node_def
        w_get_node_def graph_reset_def w_graph_reset_def timetable_graph_def Let_def)
next
  case True
  define p where "p = nat s"
  with True have p: "p < length (w_nodes g)" "int p = s" by auto
  let ?st0 = "start_state (timetable_graph g) p"
  let ?wst0 = "\<lparr>ws_nodes = (w_nodes (w_graph_reset g (int p) INF_val))
         [p := (w_nodes (w_graph_reset g (int p) INF_val) ! p)\<lparr>w_value := 0\<rparr>],
      ws_prio_queue = [(0, p)]\<rparr>"
  from p(1) have pl: "p < length (nodes (timetable_graph g))" by (simp add: timetable_graph_def)
  have t: "dijkstra_timetable addr (timetable_graph g) s =
      (case dijkstra_loop addr ?st0 of Inl f \<Rightarrow> Inl (fst f)
       | Inr st \<Rightarrow> Inr \<lparr>nodes = s_nodes st, start_index = s\<rparr>)"
    using p(1) unfolding p(2) [symmetric]
    by (simp add: dijkstra_timetable_def dijkstra_search_def get_node_def graph_reset_def
        timetable_graph_def Let_def start_state_def)
  have w: "dijkstra addr g s =
      (case w_dijkstra_loop addr ?wst0 of Inl f \<Rightarrow> Inl f
       | Inr st \<Rightarrow> Inr \<lparr>w_nodes = ws_nodes st, w_start_index = s\<rparr>)"
    using p(1) unfolding p(2) [symmetric]
    by (simp add: dijkstra_def w_get_node_def w_graph_reset_def Let_def)
  from dijkstra_loop_simulation [OF assms inv_all_start [OF assms pl] start_states_same [OF p(1)]]
  have r: "rel_sum same_fault same_search (dijkstra_loop addr ?st0) (w_dijkstra_loop addr ?wst0)" .
  show ?thesis
  proof (cases "dijkstra_loop addr ?st0")
    case (Inl f)
    with r have "w_dijkstra_loop addr ?wst0 = Inl (fst f)"
      by (cases "w_dijkstra_loop addr ?wst0") (simp_all add: same_fault_def)
    with Inl t w show ?thesis by simp
  next
    case (Inr st)
    with r obtain wst where ws: "w_dijkstra_loop addr ?wst0 = Inr wst" "same_search st wst"
      by (cases "w_dijkstra_loop addr ?wst0") simp_all
    from ws(2) have "map node_value (s_nodes st) = map w_value (ws_nodes wst)"
      by (simp add: same_search_def timetable_node_def comp_def)
    with Inr ws(1) t w show ?thesis by simp
  qed
qed

text \<open>
  C9, as stated, fails in 32-bit arithmetic. With the weights 1073741824, 1073741829 and 1
  along a chain of four nodes the value of the third node wraps around to a negative
  number; from a negative current time the timetable edge waits until time 0, the
  constant-weight search adds the weight: the two searches leave different values in the
  fourth node.
\<close>

theorem constant_weight_search_differs:
  "map_sum id (map node_value \<circ> nodes)
      (dijkstra_timetable (\<lambda>n. n) (timetable_graph weighted_overflow) 0)
     = Inr [0, 1073741824, - 2147483643, 1]
   \<and> map_sum id (map w_value \<circ> w_nodes) (dijkstra (\<lambda>n. n) weighted_overflow 0)
     = Inr [0, 1073741824, - 2147483643, - 2147483642]"
  by code_simp

text \<open>
  C9 (amended). For a current time \<open>t \<ge> 0\<close> and a weight \<open>w \<ge> 0\<close> with
  \<open>t + w \<le> INT_MAX\<close>, the edge with departure start 0, period 1 and duration \<open>w\<close> has
  wait 0 and travel time \<open>t + w\<close>. On a graph of such edges whose weights satisfy
  \<open>w + 1 \<le> M\<close>, where the number of nodes times \<open>M\<close> is below \<open>INT_MAX\<close>,
  \<open>dijkstra_timetable\<close> and the constant-weight \<open>dijkstra\<close> leave the same values in
  the nodes (and stop on the same fault, if on any).
\<close>

theorem constant_weight_search_agrees:
  assumes "bounded_schedule M (nodes (timetable_graph g))"
  shows "(\<forall>c t. 0 \<le> t \<and> 0 \<le> edge_cost c \<and> t + edge_cost c \<le> INF_val \<longrightarrow>
            wait_time (timetable_edge c) t = Inr 0 \<and>
            get_travel_time (timetable_edge c) t = Inr (t + edge_cost c))
     \<and> map_sum id (map node_value \<circ> nodes) (dijkstra_timetable addr (timetable_graph g) s)
       = map_sum id (map w_value \<circ> w_nodes) (dijkstra addr g s)"
proof -
  have "wait_time (timetable_edge c) t = Inr 0 \<and>
      get_travel_time (timetable_edge c) t = Inr (t + edge_cost c)"
    if "0 \<le> t" "0 \<le> edge_cost c" "t + edge_cost c \<le> INF_val" for c t
  proof -
    from that have t: "t \<le> INF_val" by simp
    from that have "add32 t (edge_cost c) = t + edge_cost c"
      by (simp add: add32_def wrap32_id INF_val_def)
    with timetable_edge_wait [OF that(1) t, of c] timetable_edge_travel_time [OF that(1) t, of c]
    show ?thesis by simp
  qed
  with searches_agree [OF assms, of addr s] show ?thesis by blast
qed

theorem constant_weight_search_agrees_witness:
  "bounded_schedule 11 (nodes (timetable_graph weighted_example))
   \<and> map_sum id (map w_value \<circ> w_nodes) (dijkstra (\<lambda>n. n) weighted_example 0) = Inr [0, 4, 7]
   \<and> map_sum id (map node_value \<circ> nodes)
        (dijkstra_timetable (\<lambda>n. n) (timetable_graph weighted_example) 0) = Inr [0, 4, 7]
   \<and> get_travel_time (timetable_edge \<lparr>w_connection_node = 2, edge_cost = 3\<rparr>) 4 = Inr 7"
proof -
  have b: "bounded_schedule 11 (nodes (timetable_graph weighted_example))"
    by (simp add: bounded_schedule_def timetable_graph_def weighted_example_def
        timetable_node_def timetable_edge_def INF_val_def)
  have d: "map_sum id (map w_value \<circ> w_nodes) (dijkstra (\<lambda>n. n) weighted_example 0) = Inr [0, 4, 7]"
    by code_simp
  note t = constant_weight_search_agrees [OF b, of "\<lambda>n. n" 0]
  from t d have "map_sum id (map node_value \<circ> nodes)
        (dijkstra_timetable (\<lambda>n. n) (timetable_graph weighted_example) 0) = Inr [0, 4, 7]"
    by simp
  moreover from t have "get_travel_time (timetable_edge \<lparr>w_connection_node = 2, edge_cost = 3\<rparr>) 4 = Inr (4 + 3)"
    by (simp add: INF_val_def)
  ultimately show ?thesis using b d by simp
qed

section \<open>Completion of the search\<close>

text \<open>
  On a graph whose edges all lead to nodes of the graph and all repeat (no one-shot edge),
  the search returns from every start node of the graph: no run stops on a fault.
\<close>

lemma relax_edge_returns:
  assumes "connection_node e < length (s_nodes st)" "0 < departure_time e"
  shows "\<exists>st'. relax_edge u e st = Inr st'"
proof -
  from assms(2) have "\<not> (\<exists>f. get_travel_time e (node_value (s_nodes st ! u)) = Inl f)"
    by (simp add: get_travel_time_fault_iff)
  then obtain t where "get_travel_time e (node_value (s_nodes st ! u)) = Inr t"
    by (cases "get_travel_time e (node_value (s_nodes st ! u))") auto
  with assms(1) show ?thesis by (simp add: relax_edge_def Let_def)
qed

lemma relax_edges_returns:
  assumes "\<forall>e \<in> set es. connection_node e < length (s_nodes st) \<and> 0 < departure_time e"
  shows "\<exists>st'. relax_edges u es st = Inr st'"
  using assms
proof (induction es arbitrary: st)
  case Nil
  then show ?case by simp
next
  case (Cons e es)
  from Cons.prems relax_edge_returns [of e st u] obtain st1 where 1: "relax_edge u e st = Inr st1"
    by auto
  from relax_edge_visited(1) [OF 1] Cons.prems
  have "\<forall>e \<in> set es. connection_node e < length (s_nodes st1) \<and> 0 < departure_time e"
    by simp
  from Cons.IH [OF this] 1 show ?case by simp
qed

lemma same_graph_loop_body:
  assumes "same_graph ns st" "prio_queue st \<noteq> []" "loop_body addr st = Inr st'"
  shows "same_graph ns st'"
  using assms(3,2)
proof (cases rule: loop_body_cases)
  case (stale c)
  with assms(1) show ?thesis by (simp add: same_graph_def)
next
  case (visit c)
  from assms(1) have "same_graph ns (marked st c)" by (rule same_graph_marked)
  with visit(5) show ?thesis
    by (rule relax_edges_preserves) (rule same_graph_relax_edge)
qed

lemma loop_body_returns:
  assumes "\<forall>n \<in> set ns. \<forall>e \<in> set (edges n). connection_node e < length ns \<and> 0 < departure_time e"
    and "same_graph ns st" "inv_queue st" "prio_queue st \<noteq> []"
  shows "\<exists>st'. loop_body addr st = Inr st'"
proof -
  let ?c = "pq_begin addr (prio_queue st)"
  let ?u = "snd ?c"
  from assms(4) have "?c \<in> set (prio_queue st)" by (rule pq_begin_in)
  with assms(3) have u: "?u < length (s_nodes st)"
    by (cases ?c) (auto simp: inv_queue_def)
  show ?thesis
  proof (cases "visited (s_nodes st ! ?u)")
    case True
    with u show ?thesis by (simp add: loop_body_def Let_def)
  next
    case False
    from assms(2) u have "ns ! ?u \<in> set ns" "edges (s_nodes st ! ?u) = edges (ns ! ?u)"
      "length (s_nodes st) = length ns"
      by (simp_all add: same_graph_def)
    with assms(1) have "\<forall>e \<in> set (edges (s_nodes st ! ?u)).
        connection_node e < length (s_nodes (marked st ?c)) \<and> 0 < departure_time e"
      by simp
    from relax_edges_returns [OF this, of ?u] False u show ?thesis
      by (simp add: loop_body_def Let_def marked_def)
  qed
qed

lemma dijkstra_loop_returns:
  assumes "\<forall>n \<in> set ns. \<forall>e \<in> set (edges n). connection_node e < length ns \<and> 0 < departure_time e"
    and "same_graph ns st" "inv_queue st"
  shows "\<exists>st'. dijkstra_loop addr st = Inr st'"
  using assms(2,3)
proof (induction addr st rule: dijkstra_loop.induct)
  case (1 addr st)
  show ?case
  proof (cases "prio_queue st = []")
    case True
    then show ?thesis by (simp add: dijkstra_loop.simps)
  next
    case False
    from loop_body_returns [OF assms(1) "1.prems" False] obtain st1
      where b: "loop_body addr st = Inr st1"
      by blast
    from "1.prems"(1) False b have "same_graph ns st1" by (rule same_graph_loop_body)
    moreover from "1.prems"(2) False b have "inv_queue st1" by (rule inv_queue_loop_body)
    ultimately have "\<exists>st'. dijkstra_loop addr st1 = Inr st'"
      by (rule "1.IH" [OF False b])
    with False b show ?thesis by (simp add: dijkstra_loop.simps [of addr st])
  qed
qed

lemma search_completes:
  assumes "\<forall>n \<in> set (nodes gr). \<forall>e \<in> set (edges n).
      connection_node e < length (nodes gr) \<and> 0 < departure_time e"
    and "0 \<le> s" "s < int (length (nodes gr))"
  shows "\<exists>g'. dijkstra_timetable addr gr s = Inr g'"
proof -
  from assms(2,3) have p: "nat s < length (nodes gr)" by simp
  from dijkstra_loop_returns [OF assms(1) same_graph_start inv_queue_start [OF p]]
  obtain st where "dijkstra_loop addr (start_state gr (nat s)) = Inr st"
    by blast
  with assms(2,3) show ?thesis
    by (simp add: dijkstra_timetable_def dijkstra_search_def get_node_def graph_reset_def
        Let_def start_state_def)
qed

end
